theory Spec2Isabelle
  imports Complex_Main "HOL-Library.Word"
begin

text \<open>
  The access-control and metering core of the DAT AI agent: the per-address rate limiter of
  \<open>SecurityManager\<close> and, of \<open>AIAgent\<close>, the cached access check, the query
  validation, the pricing, the processing of a query and the verification proofs. Every
  function takes the state it reads and returns the state it leaves; the contract, the clock
  and the log are part of an explicit world.
\<close>

section \<open>JavaScript strings\<close>

text \<open>
  A JavaScript string is the list of its UTF-16 code units, a \<open>jsstring\<close>. The strings
  that the source only carries, encodes and decodes (the fields of a query context, of a
  response and of a verification proof) are modelled so. Where the source looks at the letters
  of a string (\<open>toLowerCase\<close>, \<open>trim\<close>, \<open>includes\<close>, on addresses, queries and tier
  names), or writes it from ASCII literals and decimal numbers, the string is a \<open>string\<close>:
  a list of code units below 256, the Latin-1 range, so that \<open>length\<close> is
  \<open>String.length\<close>; \<open>js\<close> gives the JavaScript string of such a string.
\<close>

type_synonym jsstring = "16 word list"

definition codeUnit :: "nat \<Rightarrow> 16 word" where
  \<comment> \<open>the code unit of a number below 65536\<close>
  "codeUnit n = of_nat n"

definition js :: "string \<Rightarrow> jsstring" where
  "js s = map (\<lambda>c. codeUnit (of_char c)) s"

definition toLowerCase_char :: "char \<Rightarrow> char" where
  \<comment> \<open>\<open>A\<close>-\<open>Z\<close> and the Latin-1 capitals U+00C0 to U+00DE (not the sign U+00D7)
      are 32 below their lower-case letters; everything else is unchanged.\<close>
  "toLowerCase_char c =
     (let n = (of_char c :: nat)
      in if (65 \<le> n \<and> n \<le> 90) \<or> (192 \<le> n \<and> n \<le> 222 \<and> n \<noteq> 215)
         then char_of (n + 32) else c)"

definition toLowerCase :: "string \<Rightarrow> string" where
  "toLowerCase s = map toLowerCase_char s"

definition startsWith :: "'a list \<Rightarrow> 'a list \<Rightarrow> bool" where
  "startsWith s t = (take (length t) s = t)"

fun includesStr :: "string \<Rightarrow> string \<Rightarrow> bool" where
  \<comment> \<open>\<open>s.includes(t)\<close> (\<open>includes\<close> is a keyword of Isabelle): \<open>t\<close> occurs in \<open>s\<close> at some position.\<close>
  "includesStr [] t = (t = [])"
| "includesStr (c # s) t = (startsWith (c # s) t \<or> includesStr s t)"

definition isWhiteSpace :: "char \<Rightarrow> bool" where
  \<comment> \<open>White space and line terminators of ECMAScript below 256:
      TAB, LF, VT, FF, CR, SP and NBSP.\<close>
  "isWhiteSpace c = ((of_char c :: nat) \<in> {9, 10, 11, 12, 13, 32, 160})"

definition trim :: "string \<Rightarrow> string" where
  "trim s = rev (dropWhile isWhiteSpace (rev (dropWhile isWhiteSpace s)))"

fun replace :: "'a list \<Rightarrow> 'a list \<Rightarrow> 'a list \<Rightarrow> 'a list" where
  \<comment> \<open>\<open>s.replace(pattern, replacement)\<close> with a string pattern: the first
      occurrence only. The replacement of the source is the empty string, so the
      \<open>$\<close> patterns of a replacement do not arise.\<close>
  "replace [] pattern replacement = (if pattern = [] then replacement else [])"
| "replace (c # s) pattern replacement =
     (if startsWith (c # s) pattern then replacement @ drop (length pattern) (c # s)
      else c # replace s pattern replacement)"

subsection \<open>Number.prototype.toString for integers\<close>

definition digit_char :: "nat \<Rightarrow> char" where
  "digit_char d = char_of (48 + d)"

fun show_nat :: "nat \<Rightarrow> string" where
  "show_nat n = (if n < 10 then [digit_char n] else show_nat (n div 10) @ [digit_char (n mod 10)])"

declare show_nat.simps [simp del]

definition toString :: "int \<Rightarrow> string" where
  \<comment> \<open>Decimal digits; the integers of the source (\<open>Date.now()\<close>, token ids) are below
      \<open>10^21\<close>, where JavaScript prints no exponent.\<close>
  "toString i = (if i < 0 then CHR ''-'' # show_nat (nat (- i)) else show_nat (nat i))"

subsection \<open>UTF-16\<close>

text \<open>
  A lead surrogate followed by a trail surrogate is one code point above \<open>0xFFFF\<close>; any
  other code unit is a code point of its own. A string is well formed when it has no
  surrogate outside such a pair.
\<close>

definition isLeadSurrogate :: "16 word \<Rightarrow> bool" where
  "isLeadSurrogate u = (0xD800 \<le> unat u \<and> unat u \<le> 0xDBFF)"

definition isTrailSurrogate :: "16 word \<Rightarrow> bool" where
  "isTrailSurrogate u = (0xDC00 \<le> unat u \<and> unat u \<le> 0xDFFF)"

definition isSurrogate :: "16 word \<Rightarrow> bool" where
  "isSurrogate u = (isLeadSurrogate u \<or> isTrailSurrogate u)"

definition surrogatePair :: "16 word \<Rightarrow> 16 word \<Rightarrow> nat" where
  \<comment> \<open>UTF16SurrogatePairToCodePoint\<close>
  "surrogatePair lead trail = (unat lead - 0xD800) * 0x400 + (unat trail - 0xDC00) + 0x10000"

definition utf16 :: "nat \<Rightarrow> jsstring" where
  \<comment> \<open>UTF16EncodeCodePoint\<close>
  "utf16 cp =
     (if cp \<le> 0xFFFF then [codeUnit cp]
      else [codeUnit ((cp - 0x10000) div 0x400 + 0xD800),
            codeUnit ((cp - 0x10000) mod 0x400 + 0xDC00)])"

function wellFormed :: "jsstring \<Rightarrow> bool" where
  "wellFormed [] = True"
| "wellFormed [u] = (\<not> isSurrogate u)"
| "wellFormed (u # v # s) =
     (if isLeadSurrogate u \<and> isTrailSurrogate v then wellFormed s
      else \<not> isSurrogate u \<and> wellFormed (v # s))"
  by pat_completeness auto

termination wellFormed
  by (relation "measure length") auto

subsection \<open>Buffer: UTF-8 and base64\<close>

text \<open>
  \<open>Buffer.from(s)\<close> writes the code points of the string in UTF-8, one to four bytes
  each, and the replacement character \<open>U+FFFD\<close> for a surrogate that is not in a pair.
  \<open>buf.toString()\<close> reads UTF-8 as the decoder of the Encoding Standard does: a lead byte
  sets the number of continuation bytes and the bounds of the next one (which exclude overlong
  forms, surrogates and code points above \<open>0x10FFFF\<close>), and every byte sequence that is not
  well formed gives \<open>U+FFFD\<close>, the byte that broke it being read again.
\<close>

type_synonym byte = char

definition utf8_encode_point :: "nat \<Rightarrow> byte list" where
  \<comment> \<open>one byte below \<open>0x80\<close>, two below \<open>0x800\<close>, three below \<open>0x10000\<close>, else four\<close>
  "utf8_encode_point cp =
     (if cp < 0x80 then [char_of cp]
      else if cp < 0x800 then [char_of (0xC0 + cp div 64), char_of (0x80 + cp mod 64)]
      else if cp < 0x10000 then
        [char_of (0xE0 + cp div 4096), char_of (0x80 + cp div 64 mod 64),
         char_of (0x80 + cp mod 64)]
      else
        [char_of (0xF0 + cp div 262144), char_of (0x80 + cp div 4096 mod 64),
         char_of (0x80 + cp div 64 mod 64), char_of (0x80 + cp mod 64)])"

definition utf8_encode_unit :: "16 word \<Rightarrow> byte list" where
  "utf8_encode_unit u = utf8_encode_point (if isSurrogate u then 0xFFFD else unat u)"

function utf8_encode :: "jsstring \<Rightarrow> byte list" where
  "utf8_encode [] = []"
| "utf8_encode [u] = utf8_encode_unit u"
| "utf8_encode (u # v # s) =
     (if isLeadSurrogate u \<and> isTrailSurrogate v
      then utf8_encode_point (surrogatePair u v) @ utf8_encode s
      else utf8_encode_unit u @ utf8_encode (v # s))"
  by pat_completeness auto

termination utf8_encode
  by (relation "measure length") auto

text \<open>
  The state of the decoder inside a sequence: the number of bytes still needed, the bits read
  so far, and the lower and the upper bound of the next byte.
\<close>

type_synonym utf8_state = "nat \<times> nat \<times> nat \<times> nat"

definition utf8_lead :: "nat \<Rightarrow> utf8_state option" where
  "utf8_lead b =
     (if 0xC2 \<le> b \<and> b \<le> 0xDF then Some (1, b - 0xC0, 0x80, 0xBF)
      else if 0xE0 \<le> b \<and> b \<le> 0xEF
      then Some (2, b - 0xE0, if b = 0xE0 then 0xA0 else 0x80, if b = 0xED then 0x9F else 0xBF)
      else if 0xF0 \<le> b \<and> b \<le> 0xF4
      then Some (3, b - 0xF0, if b = 0xF0 then 0x90 else 0x80, if b = 0xF4 then 0x8F else 0xBF)
      else None)"

fun utf8_points :: "utf8_state option \<Rightarrow> byte list \<Rightarrow> nat list" where
  "utf8_points None [] = []"
| "utf8_points (Some st) [] = [0xFFFD]"
| "utf8_points None (c # bs) =
     (let b = (of_char c :: nat)
      in if b < 0x80 then b # utf8_points None bs
         else (case utf8_lead b of
                 None \<Rightarrow> 0xFFFD # utf8_points None bs
               | Some st \<Rightarrow> utf8_points (Some st) bs))"
| "utf8_points (Some (needed, cp, lower, upper)) (c # bs) =
     (let b = (of_char c :: nat)
      in if lower \<le> b \<and> b \<le> upper then
           (if needed = 1 then (cp * 64 + (b - 0x80)) # utf8_points None bs
            else utf8_points (Some (needed - 1, cp * 64 + (b - 0x80), 0x80, 0xBF)) bs)
         else
           0xFFFD #
           (if b < 0x80 then b # utf8_points None bs
            else (case utf8_lead b of
                    None \<Rightarrow> 0xFFFD # utf8_points None bs
                  | Some st \<Rightarrow> utf8_points (Some st) bs)))"

definition utf8_decode :: "byte list \<Rightarrow> jsstring" where
  "utf8_decode bs = concat (map utf16 (utf8_points None bs))"

definition base64_char :: "nat \<Rightarrow> 16 word" where
  \<comment> \<open>the alphabet \<open>A\<close>-\<open>Z\<close>, \<open>a\<close>-\<open>z\<close>, \<open>0\<close>-\<open>9\<close>, \<open>+\<close>, \<open>/\<close> at the
      indices 0 to 63\<close>
  "base64_char i =
     (if i < 26 then codeUnit (65 + i)
      else if i < 52 then codeUnit (71 + i)
      else if i < 62 then codeUnit (i - 4)
      else if i = 62 then codeUnit 0x2B
      else codeUnit 0x2F)"

definition base64_value :: "16 word \<Rightarrow> nat option" where
  "base64_value c =
     (let n = unat c
      in if 65 \<le> n \<and> n \<le> 90 then Some (n - 65)
         else if 97 \<le> n \<and> n \<le> 122 then Some (n - 71)
         else if 48 \<le> n \<and> n \<le> 57 then Some (n + 4)
         else if n = 43 then Some 62
         else if n = 47 then Some 63
         else None)"

fun base64_encode :: "byte list \<Rightarrow> jsstring" where
  \<comment> \<open>\<open>buf.toString("base64")\<close>: three bytes give four characters, with \<open>=\<close> padding.\<close>
  "base64_encode [] = []"
| "base64_encode [a] =
     (let x = (of_char a :: nat)
      in [base64_char (x div 4), base64_char (x mod 4 * 16), codeUnit 0x3D, codeUnit 0x3D])"
| "base64_encode [a, b] =
     (let x = (of_char a :: nat); y = (of_char b :: nat)
      in [base64_char (x div 4), base64_char (x mod 4 * 16 + y div 16),
          base64_char (y mod 16 * 4), codeUnit 0x3D])"
| "base64_encode (a # b # c # bs) =
     (let x = (of_char a :: nat); y = (of_char b :: nat); z = (of_char c :: nat)
      in [base64_char (x div 4), base64_char (x mod 4 * 16 + y div 16),
          base64_char (y mod 16 * 4 + z div 64), base64_char (z mod 64)]
         @ base64_encode bs)"

definition base64_decode1 :: "16 word \<Rightarrow> 16 word \<Rightarrow> byte list option" where
  "base64_decode1 c1 c2 =
     (case (base64_value c1, base64_value c2) of
        (Some v1, Some v2) \<Rightarrow> Some [char_of (v1 * 4 + v2 div 16)]
      | _ \<Rightarrow> None)"

definition base64_decode2 :: "16 word \<Rightarrow> 16 word \<Rightarrow> 16 word \<Rightarrow> byte list option" where
  "base64_decode2 c1 c2 c3 =
     (case (base64_value c1, base64_value c2, base64_value c3) of
        (Some v1, Some v2, Some v3) \<Rightarrow>
          Some [char_of (v1 * 4 + v2 div 16), char_of (v2 mod 16 * 16 + v3 div 4)]
      | _ \<Rightarrow> None)"

definition base64_decode3 ::
  "16 word \<Rightarrow> 16 word \<Rightarrow> 16 word \<Rightarrow> 16 word \<Rightarrow> byte list option" where
  "base64_decode3 c1 c2 c3 c4 =
     (case (base64_value c1, base64_value c2, base64_value c3, base64_value c4) of
        (Some v1, Some v2, Some v3, Some v4) \<Rightarrow>
          Some [char_of (v1 * 4 + v2 div 16), char_of (v2 mod 16 * 16 + v3 div 4),
                char_of (v3 mod 4 * 64 + v4)]
      | _ \<Rightarrow> None)"

function base64_decode :: "jsstring \<Rightarrow> byte list option" where
  \<comment> \<open>\<open>Buffer.from(s, "base64")\<close> on padded base64 text. Node also accepts text that is
      not: \<open>None\<close> stands for such text, which \<open>buf.toString("base64")\<close> never gives.\<close>
  "base64_decode [] = Some []"
| "base64_decode [c1] = None"
| "base64_decode [c1, c2] = None"
| "base64_decode [c1, c2, c3] = None"
| "base64_decode (c1 # c2 # c3 # c4 # cs) =
     (if cs = [] \<and> unat c4 = 0x3D then
        (if unat c3 = 0x3D then base64_decode1 c1 c2 else base64_decode2 c1 c2 c3)
      else
        (case base64_decode3 c1 c2 c3 c4 of
           None \<Rightarrow> None
         | Some bs \<Rightarrow> map_option ((@) bs) (base64_decode cs)))"
  by pat_completeness auto

termination base64_decode
  by (relation "measure length") auto

subsection \<open>JSON\<close>

text \<open>
  \<open>JSON.stringify\<close> is applied by the source to one shape of object: string and integer
  members, no nesting. It is that of ECMAScript 2019, which Node.js 18 and later (the
  version that the README asks for) implement: QuoteJSONString goes through the code points
  of a string and writes a surrogate that is not in a pair as a \<open>\u\<close> escape, so that
  the text is well formed. \<open>JSON.parse\<close> is modelled on the texts of such objects (no
  white space, members that are strings or integers); it gives \<open>None\<close> where the real
  parser throws, and also on JSON text outside this fragment, which the source never writes.
\<close>

datatype json = JString jsstring | JNumber int

definition hex_digit :: "nat \<Rightarrow> 16 word" where
  "hex_digit d = (if d < 10 then codeUnit (48 + d) else codeUnit (87 + d))"

definition hex_value :: "16 word \<Rightarrow> nat option" where
  "hex_value c =
     (let n = unat c
      in if 48 \<le> n \<and> n \<le> 57 then Some (n - 48)
         else if 97 \<le> n \<and> n \<le> 102 then Some (n - 87)
         else if 65 \<le> n \<and> n \<le> 70 then Some (n - 55)
         else None)"

definition unicodeEscape :: "nat \<Rightarrow> jsstring" where
  \<comment> \<open>UnicodeEscape: \<open>\u\<close> and four lower-case hexadecimal digits\<close>
  "unicodeEscape n =
     [codeUnit 0x5C, codeUnit 0x75, hex_digit (n div 4096), hex_digit (n div 256 mod 16),
      hex_digit (n div 16 mod 16), hex_digit (n mod 16)]"

definition quote_unit :: "16 word \<Rightarrow> jsstring" where
  \<comment> \<open>QuoteJSONString on a code point that is one code unit: the two-character escapes,
      \<open>\uXXXX\<close> for the other control characters and for a surrogate that is not in a
      pair, and the code unit itself otherwise.\<close>
  "quote_unit u =
     (let n = unat u
      in if n = 8 then [codeUnit 0x5C, codeUnit 0x62]
         else if n = 9 then [codeUnit 0x5C, codeUnit 0x74]
         else if n = 10 then [codeUnit 0x5C, codeUnit 0x6E]
         else if n = 12 then [codeUnit 0x5C, codeUnit 0x66]
         else if n = 13 then [codeUnit 0x5C, codeUnit 0x72]
         else if n = 34 then [codeUnit 0x5C, codeUnit 0x22]
         else if n = 92 then [codeUnit 0x5C, codeUnit 0x5C]
         else if n < 32 \<or> isSurrogate u then unicodeEscape n
         else [u])"

function quote_units :: "jsstring \<Rightarrow> jsstring" where
  \<comment> \<open>the code points of the string in turn: a surrogate pair is written as it is\<close>
  "quote_units [] = []"
| "quote_units [u] = quote_unit u"
| "quote_units (u # v # s) =
     (if isLeadSurrogate u \<and> isTrailSurrogate v then u # v # quote_units s
      else quote_unit u @ quote_units (v # s))"
  by pat_completeness auto

termination quote_units
  by (relation "measure length") auto

definition quote :: "jsstring \<Rightarrow> jsstring" where
  "quote s = codeUnit 0x22 # quote_units s @ [codeUnit 0x22]"

definition unescape :: "16 word \<Rightarrow> 16 word option" where
  "unescape e =
     (let n = unat e
      in if n = 0x62 then Some (codeUnit 0x08)
         else if n = 0x74 then Some (codeUnit 0x09)
         else if n = 0x6E then Some (codeUnit 0x0A)
         else if n = 0x66 then Some (codeUnit 0x0C)
         else if n = 0x72 then Some (codeUnit 0x0D)
         else if n = 0x22 then Some (codeUnit 0x22)
         else if n = 0x5C then Some (codeUnit 0x5C)
         else if n = 0x2F then Some (codeUnit 0x2F)
         else None)"

definition parse_hex4 :: "jsstring \<Rightarrow> nat option" where
  "parse_hex4 s =
     (case map hex_value s of
        [Some a, Some b, Some c, Some d] \<Rightarrow> Some (((a * 16 + b) * 16 + c) * 16 + d)
      | _ \<Rightarrow> None)"

function parse_string :: "jsstring \<Rightarrow> (jsstring \<times> jsstring) option" where
  \<comment> \<open>The characters of a JSON string after its opening quote: the string denoted and
      the text after the closing quote.\<close>
  "parse_string [] = None"
| "parse_string (c # cs) =
     (if unat c = 0x22 then Some ([], cs)
      else if unat c = 0x5C then
        (case cs of
           [] \<Rightarrow> None
         | e # cs' \<Rightarrow>
             if unat e = 0x75 then
               (case parse_hex4 (take 4 cs') of
                  None \<Rightarrow> None
                | Some n \<Rightarrow> map_option (apfst ((#) (codeUnit n))) (parse_string (drop 4 cs')))
             else
               (case unescape e of
                  None \<Rightarrow> None
                | Some d \<Rightarrow> map_option (apfst ((#) d)) (parse_string cs')))
      else if unat c < 32 then None
      else map_option (apfst ((#) c)) (parse_string cs))"
  by pat_completeness auto

termination parse_string
  by (relation "measure length") auto

definition isDigit :: "16 word \<Rightarrow> bool" where
  "isDigit c = (48 \<le> unat c \<and> unat c \<le> 57)"

definition read_nat :: "jsstring \<Rightarrow> nat" where
  "read_nat ds = foldl (\<lambda>n c. 10 * n + (unat c - 48)) 0 ds"

definition parse_digits :: "jsstring \<Rightarrow> (nat \<times> jsstring) option" where
  \<comment> \<open>\<open>0\<close>, or digits with no leading zero.\<close>
  "parse_digits s =
     (let ds = takeWhile isDigit s
      in if ds = [] \<or> (length ds > 1 \<and> unat (hd ds) = 0x30) then None
         else Some (read_nat ds, dropWhile isDigit s))"

definition parse_number :: "jsstring \<Rightarrow> (int \<times> jsstring) option" where
  "parse_number s =
     (case s of
        [] \<Rightarrow> None
      | c # cs \<Rightarrow>
          if unat c = 0x2D then map_option (apfst (\<lambda>n. - int n)) (parse_digits cs)
          else map_option (apfst int) (parse_digits s))"

definition endsNumber :: "jsstring \<Rightarrow> bool" where
  \<comment> \<open>the text after a number does not go on with a digit\<close>
  "endsNumber rest = (case rest of [] \<Rightarrow> True | c # _ \<Rightarrow> \<not> isDigit c)"

definition parse_value :: "jsstring \<Rightarrow> (json \<times> jsstring) option" where
  "parse_value s =
     (case s of
        [] \<Rightarrow> None
      | c # cs \<Rightarrow>
          if unat c = 0x22 then map_option (apfst JString) (parse_string cs)
          else map_option (apfst JNumber) (parse_number s))"

definition parse_member :: "jsstring \<Rightarrow> ((jsstring \<times> json) \<times> jsstring) option" where
  \<comment> \<open>\<open>"key":value\<close>\<close>
  "parse_member s =
     (case s of
        [] \<Rightarrow> None
      | c # cs \<Rightarrow>
          if unat c = 0x22 then
            (case parse_string cs of
               None \<Rightarrow> None
             | Some (k, s1) \<Rightarrow>
                 (case s1 of
                    [] \<Rightarrow> None
                  | d # s2 \<Rightarrow>
                      if unat d = 0x3A then map_option (apfst (Pair k)) (parse_value s2)
                      else None))
          else None)"

fun parse_members :: "nat \<Rightarrow> jsstring \<Rightarrow> (jsstring \<times> json) list option" where
  \<comment> \<open>The members after \<open>{\<close>, to the closing \<open>}\<close> that ends the text. The first
      argument bounds the number of members; the length of the text is enough.\<close>
  "parse_members 0 s = None"
| "parse_members (Suc fuel) s =
     (case parse_member s of
        None \<Rightarrow> None
      | Some (kv, s1) \<Rightarrow>
          (case s1 of
             [] \<Rightarrow> None
           | d # s2 \<Rightarrow>
               if unat d = 0x2C then map_option ((#) kv) (parse_members fuel s2)
               else if unat d = 0x7D \<and> s2 = [] then Some [kv]
               else None))"

definition JSON_parse :: "jsstring \<Rightarrow> (jsstring \<times> json) list option" where
  "JSON_parse s =
     (case s of
        [] \<Rightarrow> None
      | c # cs \<Rightarrow>
          if unat c = 0x7B then (if cs = js ''}'' then Some [] else parse_members (length cs) cs)
          else None)"

definition getMember :: "(jsstring \<times> json) list \<Rightarrow> jsstring \<Rightarrow> json option" where
  \<comment> \<open>\<open>obj.key\<close>: of two members with one key, \<open>JSON.parse\<close> keeps the later.\<close>
  "getMember obj key = map_of (rev obj) key"

definition stringify_member :: "jsstring \<times> json \<Rightarrow> jsstring" where
  "stringify_member kv =
     quote (fst kv) @ js '':'' @
     (case snd kv of JString s \<Rightarrow> quote s | JNumber i \<Rightarrow> js (toString i))"

fun stringify_members :: "(jsstring \<times> json) list \<Rightarrow> jsstring" where
  "stringify_members [] = []"
| "stringify_members [kv] = stringify_member kv"
| "stringify_members (kv # kvs) = stringify_member kv @ js '','' @ stringify_members kvs"

definition JSON_stringify :: "(jsstring \<times> json) list \<Rightarrow> jsstring" where
  \<comment> \<open>an object of string and integer members, in the order of its keys\<close>
  "JSON_stringify obj = js ''{'' @ stringify_members obj @ js ''}''"


section \<open>SecurityManager.checkRateLimit\<close>

record rate_entry =
  count :: int
  resetTime :: int

record rate_result =
  allowed :: bool
  remaining :: int
  rl_resetTime :: int

type_synonym rateLimitMap = "string \<rightharpoonup> rate_entry"

definition checkRateLimit ::
  "rateLimitMap \<Rightarrow> int \<Rightarrow> string \<Rightarrow> int \<Rightarrow> int \<Rightarrow> rate_result \<times> rateLimitMap" where
  \<comment> \<open>\<open>now\<close> is the value of \<open>Date.now()\<close>; the updated map is returned. The numbers
      \<open>maxRequests\<close> and \<open>windowMs\<close> are taken to be integers.\<close>
  "checkRateLimit m now userAddress maxRequests windowMs =
     (let key = toLowerCase userAddress
      in case m key of
           None \<Rightarrow>
             (\<lparr>allowed = True, remaining = maxRequests - 1, rl_resetTime = now + windowMs\<rparr>,
              m(key \<mapsto> \<lparr>count = 1, resetTime = now + windowMs\<rparr>))
         | Some current \<Rightarrow>
             if now > resetTime current then
               (\<lparr>allowed = True, remaining = maxRequests - 1, rl_resetTime = now + windowMs\<rparr>,
                m(key \<mapsto> \<lparr>count = 1, resetTime = now + windowMs\<rparr>))
             else if count current \<ge> maxRequests then
               (\<lparr>allowed = False, remaining = 0, rl_resetTime = resetTime current\<rparr>, m)
             else
               (\<lparr>allowed = True, remaining = maxRequests - (count current + 1),
                 rl_resetTime = resetTime current\<rparr>,
                m(key \<mapsto> current\<lparr>count := count current + 1\<rparr>)))"

text \<open>A sequence of checks by one caller, at the given instants, with one configuration.\<close>

fun checkRateLimits ::
  "rateLimitMap \<Rightarrow> int list \<Rightarrow> string \<Rightarrow> int \<Rightarrow> int \<Rightarrow> bool list \<times> rateLimitMap" where
  "checkRateLimits m [] a maxRequests windowMs = ([], m)"
| "checkRateLimits m (now # nows) a maxRequests windowMs =
     (let (r, m') = checkRateLimit m now a maxRequests windowMs;
          (rs, m'') = checkRateLimits m' nows a maxRequests windowMs
      in (allowed r # rs, m''))"

definition windowOpen :: "rateLimitMap \<Rightarrow> string \<Rightarrow> int \<Rightarrow> bool" where
  \<comment> \<open>a check at \<open>now\<close> starts a window: the caller has no entry, or its window is over\<close>
  "windowOpen m a now =
     (case m (toLowerCase a) of None \<Rightarrow> True | Some e \<Rightarrow> now > resetTime e)"

section \<open>The contract DataAnchoringToken\<close>

text \<open>
  The storage of the contract that the functions below read or write, with \<open>uint256\<close> as
  \<open>nat\<close> (the one subtraction is guarded by a \<open>require\<close>) and a Solidity mapping as a
  total function. \<open>balances\<close> is the balance table of ERC1155 behind \<open>balanceOf\<close>, and
  \<open>owner\<close> the owner of \<open>Ownable\<close>. The block timestamp and the sender of a transaction
  are arguments; a transaction that reverts gives \<open>None\<close>.
\<close>

type_synonym address = "160 word"

record SubscriptionTier =
  tier_name :: string
  tier_duration :: nat
  tier_price :: nat
  tier_usageQuota :: nat
  tier_active :: bool

record TokenMetadata =
  tierId :: nat
  md_expiryTime :: nat
  md_remainingUsage :: nat
  contributors :: "address list"
  revenueShares :: "nat list"

record DataAnchoringToken =
  subscriptionTiers :: "nat \<Rightarrow> SubscriptionTier"
  tokenMetadata :: "nat \<Rightarrow> TokenMetadata"
  userTokens :: "address \<Rightarrow> nat list"
  tierCount :: nat
  balances :: "address \<Rightarrow> nat \<Rightarrow> nat"
  owner :: address

record subscription =
  isValid :: bool
  sub_tokenId :: nat
  sub_expiryTime :: nat
  sub_remainingUsage :: nat
  sub_tierName :: string

fun firstValid :: "DataAnchoringToken \<Rightarrow> nat \<Rightarrow> address \<Rightarrow> nat list \<Rightarrow> bool \<times> nat" where
  \<comment> \<open>the loop of \<open>hasValidSubscription\<close> over the tokens that are left\<close>
  "firstValid c timestamp user [] = (False, 0)"
| "firstValid c timestamp user (tokenId # tokens) =
     (if balances c user tokenId > 0 then
        (if timestamp < md_expiryTime (tokenMetadata c tokenId)
            \<and> md_remainingUsage (tokenMetadata c tokenId) > 0
         then (True, tokenId)
         else firstValid c timestamp user tokens)
      else firstValid c timestamp user tokens)"

definition hasValidSubscription :: "DataAnchoringToken \<Rightarrow> nat \<Rightarrow> address \<Rightarrow> bool \<times> nat" where
  "hasValidSubscription c timestamp user = firstValid c timestamp user (userTokens c user)"

definition debit :: "DataAnchoringToken \<Rightarrow> nat \<Rightarrow> nat \<Rightarrow> DataAnchoringToken" where
  \<comment> \<open>\<open>metadata.remainingUsage -= amount\<close> on the storage of the token\<close>
  "debit c tokenId amount =
     c\<lparr>tokenMetadata := (tokenMetadata c)
         (tokenId := (tokenMetadata c tokenId)
            \<lparr>md_remainingUsage := md_remainingUsage (tokenMetadata c tokenId) - amount\<rparr>)\<rparr>"

definition consumeUsage ::
  "DataAnchoringToken \<Rightarrow> nat \<Rightarrow> address \<Rightarrow> address \<Rightarrow> nat \<Rightarrow> DataAnchoringToken option" where
  \<comment> \<open>\<open>onlyOwner\<close>, then the two \<open>require\<close>s, then the debit of the valid token\<close>
  "consumeUsage c timestamp sender user amount =
     (if sender \<noteq> owner c then None
      else
        (case hasValidSubscription c timestamp user of
           (hasValid, tokenId) \<Rightarrow>
             if \<not> hasValid then None
             else if \<not> md_remainingUsage (tokenMetadata c tokenId) \<ge> amount then None
             else Some (debit c tokenId amount)))"

definition getUserSubscription :: "DataAnchoringToken \<Rightarrow> nat \<Rightarrow> address \<Rightarrow> subscription" where
  "getUserSubscription c timestamp user =
     (case hasValidSubscription c timestamp user of
        (hasValid, validTokenId) \<Rightarrow>
          if hasValid then
            \<lparr>isValid = True, sub_tokenId = validTokenId,
             sub_expiryTime = md_expiryTime (tokenMetadata c validTokenId),
             sub_remainingUsage = md_remainingUsage (tokenMetadata c validTokenId),
             sub_tierName = tier_name (subscriptionTiers c (tierId (tokenMetadata c validTokenId)))\<rparr>
          else
            \<lparr>isValid = False, sub_tokenId = 0, sub_expiryTime = 0, sub_remainingUsage = 0,
             sub_tierName = []\<rparr>)"

section \<open>AIAgent\<close>

subsection \<open>Data\<close>

datatype access_level = Basic | Premium | Enterprise

record VerificationProof =
  proof_text :: jsstring       \<comment> \<open>the field \<open>proof\<close>\<close>
  publicInputs :: "jsstring list"
  vp_timestamp :: int

record AIResponse =
  content :: jsstring
  confidence :: nat            \<comment> \<open>in hundredths: 70, 85 and 90 for 0.7, 0.85 and 0.9\<close>
  sources :: "jsstring list"
  verificationProof :: "VerificationProof option"

record AccessControlResult =
  hasAccess :: bool
  tokenId :: string
  remainingUsage :: nat
  expiryTime :: int
  tierName :: string
  accessLevel :: access_level

record QueryContext =
  ctx_userAddress :: jsstring
  ctx_query :: jsstring
  ctx_timestamp :: int
  ctx_sessionId :: jsstring

record QueryResult =
  success :: bool
  response :: "AIResponse option"
  error :: "string option"
  usageConsumed :: "nat option"
  transactionHash :: "string option"

record cache_entry =
  ce_result :: AccessControlResult
  ce_timestamp :: int

record AIAgent =
  contract :: bool             \<comment> \<open>\<open>this.contract\<close> is not null\<close>
  provider :: bool             \<comment> \<open>\<open>this.provider\<close> is not null\<close>
  isValidProvider :: bool      \<comment> \<open>what \<open>isValidProvider(this.provider)\<close> returns\<close>
  accessCache :: "string \<rightharpoonup> cache_entry"

definition CACHE_DURATION :: int where
  "CACHE_DURATION = 60000"

subsection \<open>The world outside the agent\<close>

text \<open>
  An awaited call returns or throws. \<open>now\<close> is \<open>Date.now()\<close>, in milliseconds, and
  \<open>blockTime\<close> the timestamp of the block in which a call of the contract runs, in seconds;
  both stand still during one call of the agent and are advanced between calls. \<open>chain\<close>
  is the storage of the contract. \<open>resolve\<close> is the client library between the agent and
  the contract: the address it sends for an address string, or \<open>Throws\<close> when a call with
  that string fails before it reaches the contract or on its way back (a string that is no
  address or has a wrong checksum, a node that cannot be reached, a result that cannot be
  converted), all inside the \<open>try\<close> of the caller. \<open>signer\<close> is the account that signs the
  agent's transactions, and \<open>receiptHash\<close> the hash on the receipt of the next one.
  \<open>throwing\<close> names the step of the capability that throws in this run, if one does.
  \<open>trace\<close> records the effects of the agent in order.
\<close>

datatype 'a outcome = Throws | Returns 'a

datatype step = ProcessTEE | GenerateResponse | GenerateProof

datatype effect =
    GetUserSubscription string
  | ConsumeUsage string nat
  | ResponseGenerated string access_level
  | SecurityLog string
  | QueryLog string

record world =
  now :: int
  blockTime :: nat
  chain :: DataAnchoringToken
  resolve :: "string \<Rightarrow> address outcome"
  signer :: address
  receiptHash :: string
  throwing :: "step option"
  trace :: "effect list"

definition emit :: "effect \<Rightarrow> world \<Rightarrow> world" where
  "emit e w = w\<lparr>trace := trace w @ [e]\<rparr>"

definition ledger :: "world \<Rightarrow> string \<Rightarrow> subscription outcome" where
  \<comment> \<open>what \<open>this.contract.getUserSubscription(user)\<close> gives the agent in this world\<close>
  "ledger w user =
     (case resolve w user of
        Throws \<Rightarrow> Throws
      | Returns u \<Rightarrow> Returns (getUserSubscription (chain w) (blockTime w) u))"

definition call_getUserSubscription :: "world \<Rightarrow> string \<Rightarrow> subscription outcome \<times> world" where
  \<comment> \<open>\<open>await this.contract.getUserSubscription(user)\<close>\<close>
  "call_getUserSubscription w user = (ledger w user, emit (GetUserSubscription user) w)"

definition call_consumeUsage :: "world \<Rightarrow> string \<Rightarrow> nat \<Rightarrow> string outcome \<times> world" where
  \<comment> \<open>\<open>await this.contract.consumeUsage(user, amount)\<close> and \<open>await tx.wait()\<close>: the hash
      on the receipt, or a throw when the call fails or the transaction reverts\<close>
  "call_consumeUsage w user amount =
     (let w' = emit (ConsumeUsage user amount) w
      in case resolve w user of
           Throws \<Rightarrow> (Throws, w')
         | Returns u \<Rightarrow>
             (case consumeUsage (chain w) (blockTime w) (signer w) u amount of
                None \<Rightarrow> (Throws, w')
              | Some c \<Rightarrow> (Returns (receiptHash w), w'\<lparr>chain := c\<rparr>)))"

subsection \<open>verifyAccess\<close>

definition demoMode :: "AIAgent \<Rightarrow> bool" where
  \<comment> \<open>\<open>!this.contract || !this.provider || !this.isValidProvider(this.provider)\<close>\<close>
  "demoMode ag = (\<not> contract ag \<or> \<not> provider ag \<or> \<not> isValidProvider ag)"

definition cacheSet :: "AIAgent \<Rightarrow> string \<Rightarrow> AccessControlResult \<Rightarrow> int \<Rightarrow> AIAgent" where
  "cacheSet ag key r t =
     ag\<lparr>accessCache := (accessCache ag)(key \<mapsto> \<lparr>ce_result = r, ce_timestamp = t\<rparr>)\<rparr>"

definition mockResult :: "int \<Rightarrow> AccessControlResult" where
  "mockResult t =
     \<lparr>hasAccess = True, tokenId = ''demo-1'', remainingUsage = 10,
      expiryTime = t div 1000 + 86400 * 30, tierName = ''Demo Access'',
      accessLevel = Premium\<rparr>"

definition fallbackResult :: "int \<Rightarrow> AccessControlResult" where
  "fallbackResult t =
     \<lparr>hasAccess = True, tokenId = ''fallback-1'', remainingUsage = 5,
      expiryTime = t div 1000 + 86400 * 7, tierName = ''Demo Fallback'',
      accessLevel = Basic\<rparr>"

definition levelOfTier :: "string \<Rightarrow> access_level" where
  "levelOfTier name =
     (if includesStr name ''Lifetime'' then Enterprise
      else if includesStr name ''Monthly'' then Premium
      else Basic)"

definition ledgerResult :: "subscription \<Rightarrow> AccessControlResult" where
  "ledgerResult s =
     \<lparr>hasAccess = isValid s, tokenId = toString (int (sub_tokenId s)),
      remainingUsage = sub_remainingUsage s, expiryTime = int (sub_expiryTime s),
      tierName = sub_tierName s, accessLevel = levelOfTier (sub_tierName s)\<rparr>"

definition cacheHit :: "AIAgent \<Rightarrow> world \<Rightarrow> string \<Rightarrow> bool \<Rightarrow> AccessControlResult option" where
  \<comment> \<open>\<open>!forceRefresh && cached && Date.now() - cached.timestamp < this.CACHE_DURATION\<close>\<close>
  "cacheHit ag w userAddress forceRefresh =
     (case accessCache ag (toLowerCase userAddress) of
        None \<Rightarrow> None
      | Some cached \<Rightarrow>
          if \<not> forceRefresh \<and> now w - ce_timestamp cached < CACHE_DURATION
          then Some (ce_result cached) else None)"

definition verifyAccess ::
  "AIAgent \<Rightarrow> world \<Rightarrow> string \<Rightarrow> bool \<Rightarrow> AccessControlResult \<times> AIAgent \<times> world" where
  "verifyAccess ag w userAddress forceRefresh =
     (let cacheKey = toLowerCase userAddress
      in case cacheHit ag w userAddress forceRefresh of
           Some r \<Rightarrow> (r, ag, w)
         | None \<Rightarrow>
             if demoMode ag then
               (mockResult (now w), cacheSet ag cacheKey (mockResult (now w)) (now w), w)
             else
               (case call_getUserSubscription w userAddress of
                  (Returns s, w') \<Rightarrow>
                    (ledgerResult s, cacheSet ag cacheKey (ledgerResult s) (now w), w')
                | (Throws, w') \<Rightarrow>
                    (fallbackResult (now w),
                     cacheSet ag cacheKey (fallbackResult (now w)) (now w), w')))"

subsection \<open>validateQuery and calculateUsageCost\<close>

record validation =
  v_isValid :: bool
  v_error :: "string option"

definition prohibitedTerms :: "string list" where
  "prohibitedTerms = [''hack'', ''exploit'', ''illegal'', ''fraud'']"

definition hasProhibited :: "string \<Rightarrow> bool" where
  "hasProhibited query = list_ex (\<lambda>t. includesStr (toLowerCase query) t) prohibitedTerms"

definition validateQuery :: "string \<Rightarrow> access_level \<Rightarrow> validation" where
  "validateQuery query level =
     (if trim query = [] \<or> length query > 1000 then
        \<lparr>v_isValid = False, v_error = Some ''Query must be between 1-1000 characters.''\<rparr>
      else if hasProhibited query then
        \<lparr>v_isValid = False, v_error = Some ''Query contains prohibited content.''\<rparr>
      else if level = Basic \<and> length query > 200 then
        \<lparr>v_isValid = False,
         v_error = Some ''Basic tier limited to 200 character queries. Upgrade for longer queries.''\<rparr>
      else \<lparr>v_isValid = True, v_error = None\<rparr>)"

definition baseCost :: "string \<Rightarrow> nat" where
  "baseCost query =
     1 + (if length query > 100 then 1 else 0)
       + (if includesStr query ''analysis'' \<or> includesStr query ''strategy'' then 1 else 0)"

definition calculateUsageCost :: "string \<Rightarrow> access_level \<Rightarrow> nat" where
  \<comment> \<open>\<open>Math.floor(baseCost * 0.5)\<close> and \<open>Math.floor(baseCost * 0.8)\<close> for a base cost
      of 1, 2 or 3: the doubles 0.5, 1, 1.5 and 0.8, 1.6, 2.4000000000000004 have the
      floors of the exact products, written here with integer division.\<close>
  "calculateUsageCost query level =
     (case level of
        Enterprise \<Rightarrow> max 1 (baseCost query * 5 div 10)
      | Premium \<Rightarrow> max 1 (baseCost query * 8 div 10)
      | Basic \<Rightarrow> baseCost query)"

subsection \<open>The capability: processTEE, generateEnhancedAIResponse, generateVerificationProof\<close>

datatype category = Defi | Nft | Default

definition responseCategory :: "string \<Rightarrow> category" where
  "responseCategory query =
     (let lowerQuery = toLowerCase query
      in if includesStr lowerQuery ''defi'' \<or> includesStr lowerQuery ''yield'' then Defi
         else if includesStr lowerQuery ''nft'' then Nft
         else Default)"

definition categoryConfidence :: "category \<Rightarrow> nat" where
  "categoryConfidence c = (case c of Defi \<Rightarrow> 90 | Nft \<Rightarrow> 85 | Default \<Rightarrow> 70)"

definition confidence_toString :: "nat \<Rightarrow> string" where
  \<comment> \<open>\<open>confidence.toString()\<close> of the three values that occur\<close>
  "confidence_toString c = (if c = 90 then ''0.9'' else if c = 85 then ''0.85'' else ''0.7'')"

fun responses :: "category \<Rightarrow> access_level \<Rightarrow> string" where
  "responses Defi Basic =
     ''Current DeFi opportunities include staking ETH (~4% APY) and providing liquidity on major DEXs.''"
| "responses Defi Premium =
     ''Top DeFi yield strategies: 1) ETH staking on Lido (4.2% APY), 2) Uniswap V3 concentrated liquidity (8-15% APY), 3) Aave lending (3-6% APY). Risk assessment: Medium to high depending on strategy.''"
| "responses Defi Enterprise =
     ''Comprehensive DeFi analysis: 1) Liquid staking derivatives (Lido, Rocket Pool) offering 4-5% with high liquidity, 2) Concentrated liquidity positions on Uniswap V3 with dynamic rebalancing (potential 10-20% APY), 3) Yield farming on Curve with CRV rewards (6-12% APY), 4) Leveraged strategies using Aave/Compound (15-30% APY, high risk). Include impermanent loss calculations and gas optimization strategies.''"
| "responses Nft Basic =
     ''NFT market shows mixed trends with blue-chip collections maintaining value.''"
| "responses Nft Premium =
     ''NFT market analysis: Blue-chip collections (BAYC, CryptoPunks) showing 15% decline but strong floor support. Utility NFTs and gaming assets gaining traction. AI-generated art emerging as new category.''"
| "responses Nft Enterprise =
     ''Detailed NFT market intelligence: 1) Blue-chip analysis with floor price predictions, 2) Emerging categories (AI art, utility tokens, gaming assets), 3) Market sentiment indicators, 4) Liquidity analysis across marketplaces, 5) Upcoming drops and mint strategies with ROI projections.''"
| "responses Default Basic =
     CHR ''I'' # CHR 0x27 # ''m an AI agent powered by DAT subscriptions. I can help with basic crypto and blockchain questions.''"
| "responses Default Premium =
     CHR ''I'' # CHR 0x27 # ''m an advanced AI agent with access to real-time market data, DeFi protocols, and NFT analytics. I can provide detailed investment strategies and risk assessments.''"
| "responses Default Enterprise =
     CHR ''I'' # CHR 0x27 # ''m an enterprise-grade AI agent with comprehensive blockchain intelligence, advanced analytics, and institutional-level insights. I provide detailed market analysis, risk modeling, and strategic recommendations.''"

definition generateSources :: "category \<Rightarrow> access_level \<Rightarrow> string list" where
  "generateSources c level =
     (let baseSources = [''DeFiPulse'', ''CoinGecko'', ''Etherscan''];
          premiumSources = baseSources @ [''Messari'', ''Dune Analytics'', ''DefiLlama''];
          enterpriseSources = premiumSources @ [''Chainalysis'', ''Nansen'', ''IntoTheBlock'']
      in case level of
           Enterprise \<Rightarrow> enterpriseSources
         | Premium \<Rightarrow> premiumSources
         | Basic \<Rightarrow> baseSources)"

definition processTEE ::
  "world \<Rightarrow> QueryContext \<Rightarrow> access_level \<Rightarrow> (jsstring \<times> jsstring) outcome" where
  \<comment> \<open>the attestation and the encrypted result\<close>
  "processTEE w context level =
     (if throwing w = Some ProcessTEE then Throws
      else Returns
        (js ''TEE_ATTESTATION_'' @ ctx_sessionId context @ js ''_'' @ js (toString (now w)),
         js ''ENCRYPTED_'' @ base64_encode (utf8_encode (ctx_query context))))"

definition generateEnhancedAIResponse ::
  "world \<Rightarrow> string \<Rightarrow> access_level \<Rightarrow> AIResponse outcome \<times> world" where
  "generateEnhancedAIResponse w query level =
     (if throwing w = Some GenerateResponse then (Throws, w)
      else
        (Returns
           \<lparr>content = js (responses (responseCategory query) level),
            confidence = categoryConfidence (responseCategory query),
            sources = map js (generateSources (responseCategory query) level),
            verificationProof = None\<rparr>,
         emit (ResponseGenerated query level) w))"

definition proofData :: "QueryContext \<Rightarrow> AIResponse \<Rightarrow> (jsstring \<times> json) list" where
  "proofData context r =
     [(js ''query'', JString (ctx_query context)),
      (js ''response'', JString (content r)),
      (js ''timestamp'', JNumber (ctx_timestamp context)),
      (js ''userAddress'', JString (ctx_userAddress context))]"

definition issueProof :: "int \<Rightarrow> QueryContext \<Rightarrow> AIResponse \<Rightarrow> VerificationProof" where
  \<comment> \<open>the body of \<open>generateVerificationProof\<close>, at the instant \<open>t\<close>\<close>
  "issueProof t context r =
     \<lparr>proof_text =
        js ''ZKP_'' @ base64_encode (utf8_encode (JSON_stringify (proofData context r))),
      publicInputs = [ctx_userAddress context, js (toString (ctx_timestamp context)),
                      js (confidence_toString (confidence r))],
      vp_timestamp = t\<rparr>"

definition generateVerificationProof ::
  "world \<Rightarrow> QueryContext \<Rightarrow> AIResponse \<Rightarrow> VerificationProof outcome" where
  "generateVerificationProof w context r =
     (if throwing w = Some GenerateProof then Throws else Returns (issueProof (now w) context r))"

definition verifyResponse :: "VerificationProof \<Rightarrow> jsstring \<Rightarrow> bool" where
  \<comment> \<open>\<open>false\<close> also where decoding or parsing throws\<close>
  "verifyResponse p r =
     (case base64_decode (replace (proof_text p) (js ''ZKP_'') []) of
        None \<Rightarrow> False
      | Some bytes \<Rightarrow>
          (case JSON_parse (utf8_decode bytes) of
             None \<Rightarrow> False
           | Some decodedProof \<Rightarrow>
               getMember decodedProof (js ''response'') = Some (JString r)))"

subsection \<open>processQuery\<close>

definition consumeUsageWithLogging ::
  "AIAgent \<Rightarrow> world \<Rightarrow> string \<Rightarrow> nat \<Rightarrow> string \<times> world" where
  "consumeUsageWithLogging ag w userAddress amount =
     (if demoMode ag then (''demo_tx_'' @ toString (now w), w)
      else
        (case call_consumeUsage w userAddress amount of
           (Returns h, w') \<Rightarrow> (h, w')
         | (Throws, w') \<Rightarrow> (''fallback_tx_'' @ toString (now w), w')))"

definition failure :: "string \<Rightarrow> QueryResult" where
  "failure e =
     \<lparr>success = False, response = None, error = Some e, usageConsumed = None,
      transactionHash = None\<rparr>"

definition ACCESS_DENIED :: string where
  "ACCESS_DENIED =
     ''Access denied. Please purchase a valid DAT subscription to access the AI agent.''"

definition QUOTA_EXCEEDED :: string where
  "QUOTA_EXCEEDED =
     ''Usage quota exceeded. Please upgrade your subscription or wait for renewal.''"

definition PROCESSING_ERROR :: string where
  "PROCESSING_ERROR = ''Failed to process query. Please try again later.''"

definition execute ::
  "AIAgent \<Rightarrow> world \<Rightarrow> string \<Rightarrow> string \<Rightarrow> QueryContext \<Rightarrow> access_level \<Rightarrow>
   (QueryResult \<times> AIAgent) outcome \<times> world" where
  \<comment> \<open>The \<open>try\<close> block of \<open>processQuery\<close>. \<open>Throws\<close> enters its \<open>catch\<close>, in the
      world that the steps before the throw have left.\<close>
  "execute ag w userAddress query queryContext level =
     (case processTEE w queryContext level of
        Throws \<Rightarrow> (Throws, w)
      | Returns teeResult \<Rightarrow>
          (case generateEnhancedAIResponse w query level of
             (Throws, w1) \<Rightarrow> (Throws, w1)
           | (Returns aiResponse, w1) \<Rightarrow>
               (case generateVerificationProof w1 queryContext aiResponse of
                  Throws \<Rightarrow> (Throws, w1)
                | Returns vp \<Rightarrow>
                    (let r = aiResponse\<lparr>verificationProof := Some vp\<rparr>;
                         usageAmount = calculateUsageCost query level;
                         (txHash, w2) = consumeUsageWithLogging ag w1 userAddress usageAmount;
                         ag' = ag\<lparr>accessCache := (accessCache ag)(toLowerCase userAddress := None)\<rparr>
                     in (Returns
                           (\<lparr>success = True, response = Some r, error = None,
                             usageConsumed = Some usageAmount, transactionHash = Some txHash\<rparr>,
                            ag'),
                         emit (QueryLog ''SUCCESSFUL_QUERY'') w2)))))"

definition processQuery ::
  "AIAgent \<Rightarrow> world \<Rightarrow> string \<Rightarrow> string \<Rightarrow> string \<Rightarrow> QueryResult \<times> AIAgent \<times> world" where
  "processQuery ag w userAddress query sessionId =
     (let queryContext =
            \<lparr>ctx_userAddress = js userAddress, ctx_query = js query, ctx_timestamp = now w,
             ctx_sessionId = js sessionId\<rparr>;
          (accessCheck, ag1, w1) = verifyAccess ag w userAddress False
      in if \<not> hasAccess accessCheck then
           (failure ACCESS_DENIED, ag1, emit (SecurityLog ''ACCESS_DENIED'') w1)
         else if remainingUsage accessCheck = 0 then
           (failure QUOTA_EXCEEDED, ag1, emit (SecurityLog ''QUOTA_EXCEEDED'') w1)
         else
           (let validationResult = validateQuery query (accessLevel accessCheck)
            in if \<not> v_isValid validationResult then
                 (\<lparr>success = False, response = None, error = v_error validationResult,
                   usageConsumed = None, transactionHash = None\<rparr>, ag1, w1)
               else
                 (case execute ag1 w1 userAddress query queryContext (accessLevel accessCheck) of
                    (Returns (res, ag2), w2) \<Rightarrow> (res, ag2, w2)
                  | (Throws, w2) \<Rightarrow>
                      (failure PROCESSING_ERROR, ag1, emit (SecurityLog ''PROCESSING_ERROR'') w2))))"

subsection \<open>Sequences of calls and examples\<close>

definition queryContextOf :: "world \<Rightarrow> string \<Rightarrow> string \<Rightarrow> string \<Rightarrow> QueryContext" where
  \<comment> \<open>the \<open>queryContext\<close> that \<open>processQuery\<close> builds\<close>
  "queryContextOf w userAddress query sessionId =
     \<lparr>ctx_userAddress = js userAddress, ctx_query = js query, ctx_timestamp = now w,
      ctx_sessionId = js sessionId\<rparr>"


text \<open>
  An agent with a contract and a valid provider and nothing cached; a subscriber, a
  mixed-case spelling of the subscriber's address, and the owner of the contract; a contract
  in which the subscriber holds one token of the trial tier, with a remaining quota; what that
  contract answers for the subscriber before the token expires; a client library that
  resolves every string alike; one that resolves a string in lower case and throws on any
  other spelling, as it does for a mixed-case address whose checksum is wrong; a world at a
  given instant, whose block time is that instant in seconds.
\<close>

definition exampleAgent :: AIAgent where
  "exampleAgent =
     \<lparr>contract = True, provider = True, isValidProvider = True, accessCache = Map.empty\<rparr>"

definition exampleUser :: address where
  "exampleUser = 0x52908400098527886E0F7030069857D2E4169EE7"

definition exampleAddress :: string where
  "exampleAddress = ''0x52908400098527886e0F7030069857d2E4169ee7''"

definition exampleOwner :: address where
  "exampleOwner = 0xde709f2102306220921060314715629080e2fb77"

definition exampleTier :: SubscriptionTier where
  "exampleTier =
     \<lparr>tier_name = ''7-Day Trial'', tier_duration = 604800, tier_price = 10000000000000000,
      tier_usageQuota = 50, tier_active = True\<rparr>"

definition exampleChain :: "nat \<Rightarrow> DataAnchoringToken" where
  "exampleChain n =
     \<lparr>subscriptionTiers = (\<lambda>i. exampleTier),
      tokenMetadata = (\<lambda>i. \<lparr>tierId = 1, md_expiryTime = 1800000000, md_remainingUsage = n,
                               contributors = [], revenueShares = []\<rparr>),
      userTokens = (\<lambda>u. if u = exampleUser then [7] else []),
      tierCount = 1,
      balances = (\<lambda>u i. if u = exampleUser \<and> i = 7 then 1 else 0),
      owner = exampleOwner\<rparr>"

definition exampleSubscription :: "nat \<Rightarrow> subscription" where
  "exampleSubscription n =
     (if n = 0
      then \<lparr>isValid = False, sub_tokenId = 0, sub_expiryTime = 0, sub_remainingUsage = 0,
            sub_tierName = []\<rparr>
      else \<lparr>isValid = True, sub_tokenId = 7, sub_expiryTime = 1800000000,
            sub_remainingUsage = n, sub_tierName = ''7-Day Trial''\<rparr>)"

definition exhaustedResult :: AccessControlResult where
  \<comment> \<open>an entitlement that grants access with nothing left, as a cache entry can hold it\<close>
  "exhaustedResult =
     \<lparr>hasAccess = True, tokenId = ''7'', remainingUsage = 0, expiryTime = 1800000000000,
      tierName = ''7-Day Trial'', accessLevel = Basic\<rparr>"

definition constClient :: "address outcome \<Rightarrow> string \<Rightarrow> address outcome" where
  "constClient x a = x"

definition lowerCaseClient :: "address \<Rightarrow> string \<Rightarrow> address outcome" where
  "lowerCaseClient u a = (if a = toLowerCase a then Returns u else Throws)"

definition exampleWorld :: "int \<Rightarrow> (string \<Rightarrow> address outcome) \<Rightarrow> nat \<Rightarrow> world" where
  "exampleWorld t client n =
     \<lparr>now = t, blockTime = nat (t div 1000), chain = exampleChain n, resolve = client,
      signer = exampleOwner, receiptHash = ''0x5e'', throwing = None, trace = []\<rparr>"

section \<open>The rate limiter\<close>

lemma checkRateLimits_in_window:
  "m (toLowerCase a) = Some e \<Longrightarrow> \<forall>t \<in> set ts. t \<le> resetTime e \<Longrightarrow>
   fst (checkRateLimits m ts a maxRequests windowMs) =
     replicate (min (length ts) (nat (maxRequests - count e))) True
     @ replicate (length ts - nat (maxRequests - count e)) False"
proof (induction ts arbitrary: m e)
  case Nil
  then show ?case by simp
next
  case (Cons t ts)
  have le: "\<not> t > resetTime e" using Cons.prems(2) by simp
  show ?case
  proof (cases "count e \<ge> maxRequests")
    case True
    then have step: "checkRateLimit m t a maxRequests windowMs =
        (\<lparr>allowed = False, remaining = 0, rl_resetTime = resetTime e\<rparr>, m)"
      using Cons.prems(1) le by (simp add: checkRateLimit_def)
    have "fst (checkRateLimits m ts a maxRequests windowMs) =
        replicate (min (length ts) (nat (maxRequests - count e))) True
        @ replicate (length ts - nat (maxRequests - count e)) False"
      using Cons.IH [of m e] Cons.prems by simp
    with True step show ?thesis by (simp add: split_beta)
  next
    case False
    let ?e = "e\<lparr>count := count e + 1\<rparr>"
    let ?m = "m(toLowerCase a \<mapsto> ?e)"
    from False have step: "checkRateLimit m t a maxRequests windowMs =
        (\<lparr>allowed = True, remaining = maxRequests - (count e + 1), rl_resetTime = resetTime e\<rparr>, ?m)"
      using Cons.prems(1) le by (simp add: checkRateLimit_def)
    have "fst (checkRateLimits ?m ts a maxRequests windowMs) =
        replicate (min (length ts) (nat (maxRequests - count ?e))) True
        @ replicate (length ts - nat (maxRequests - count ?e)) False"
    proof (rule Cons.IH)
      show "?m (toLowerCase a) = Some ?e" by simp
      show "\<forall>t \<in> set ts. t \<le> resetTime ?e" using Cons.prems(2) by simp
    qed
    moreover from False have "nat (maxRequests - count e) = Suc (nat (maxRequests - (count e + 1)))"
      by simp
    ultimately show ?thesis using step by (simp add: split_beta)
  qed
qed

lemma checkRateLimit_open:
  "windowOpen m a t \<Longrightarrow>
   checkRateLimit m t a maxRequests windowMs =
     (\<lparr>allowed = True, remaining = maxRequests - 1, rl_resetTime = t + windowMs\<rparr>,
      m(toLowerCase a \<mapsto> \<lparr>count = 1, resetTime = t + windowMs\<rparr>))"
  by (simp add: windowOpen_def checkRateLimit_def split: option.splits)

text \<open>
  C5, as the code has it. A check at \<open>t0\<close> by a caller with no entry, or with an entry whose
  \<open>resetTime\<close> (the window's start plus \<open>windowMs\<close>) is before \<open>t0\<close>, starts a window: it
  is allowed, the count restarts at 1 and the window ends at \<open>t0 + windowMs\<close>. For every
  \<open>maxRequests\<close> of at least 1 and every \<open>windowMs\<close>, of the checks made up to the end of
  that window, \<open>t0 + windowMs\<close> included, exactly the first \<open>maxRequests\<close> are allowed and
  every later one is denied.
\<close>

theorem rate_limit_window:
  assumes "windowOpen m a t0" and "1 \<le> maxRequests"
    and "\<forall>t \<in> set ts. t \<le> t0 + windowMs"
  shows "fst (checkRateLimits m (t0 # ts) a maxRequests windowMs) =
           replicate (min (Suc (length ts)) (nat maxRequests)) True
           @ replicate (Suc (length ts) - nat maxRequests) False
         \<and> snd (checkRateLimit m t0 a maxRequests windowMs) (toLowerCase a) =
             Some \<lparr>count = 1, resetTime = t0 + windowMs\<rparr>"
proof -
  let ?e = "\<lparr>count = 1, resetTime = t0 + windowMs\<rparr>"
  let ?m = "m(toLowerCase a \<mapsto> ?e)"
  have "fst (checkRateLimits ?m ts a maxRequests windowMs) =
     replicate (min (length ts) (nat (maxRequests - count ?e))) True
     @ replicate (length ts - nat (maxRequests - count ?e)) False"
  proof (rule checkRateLimits_in_window)
    show "?m (toLowerCase a) = Some ?e" by simp
    show "\<forall>t \<in> set ts. t \<le> resetTime ?e" using assms(3) by simp
  qed
  moreover have "nat maxRequests = Suc (nat (maxRequests - 1))" using assms(2) by simp
  ultimately show ?thesis
    using checkRateLimit_open [OF assms(1)] by (simp add: split_beta)
qed

theorem rate_limit_window_witness:
  "windowOpen Map.empty ''0xAb'' 1000
   \<and> fst (checkRateLimits Map.empty [1000, 1001, 61000, 61000] ''0xAb'' 3 60000) =
       [True, True, True, False]"
  using rate_limit_window [of Map.empty "''0xAb''" 1000 3 "[1001, 61000, 61000]" 60000]
  by (simp add: windowOpen_def numeral_3_eq_3)

text \<open>
  C5 as stated fails on two inputs. With \<open>maxRequests = 1\<close>, a check at the instant
  \<open>windowStart + windowMs\<close> itself does not reset the window: the code resets when
  \<open>now > resetTime\<close>, so the check is the second of the window and is denied. With
  \<open>maxRequests = 0\<close> the first check of a window is allowed.
\<close>

theorem rate_limit_counterexample:
  "fst (checkRateLimits Map.empty [0, 60000] ''0xab'' 1 60000) = [True, False]
   \<and> fst (checkRateLimits Map.empty [0] ''0xab'' 0 60000) = [True]"
  by (simp add: checkRateLimit_def toLowerCase_def toLowerCase_char_def)

section \<open>Pricing\<close>

lemma baseCost_cases: "baseCost q = 1 \<or> baseCost q = 2 \<or> baseCost q = 3"
  by (simp add: baseCost_def)

text \<open>
  C6. The cost depends on the payload and the tier only. It starts at 1, grows by 1 for a
  payload of more than 100 characters and by 1 for a payload that has one of the keywords
  \<open>analysis\<close> and \<open>strategy\<close>; the premium tier multiplies it by 0.8 and the enterprise
  tier by 0.5, rounded down and then raised to 1 if below; the result is an integer from
  1 to 3.
\<close>

theorem calculateUsageCost_priced:
  "1 \<le> calculateUsageCost q level \<and> calculateUsageCost q level \<le> 3
   \<and> calculateUsageCost q Basic =
       1 + (if length q > 100 then 1 else 0)
         + (if includesStr q ''analysis'' \<or> includesStr q ''strategy'' then 1 else 0)
   \<and> int (calculateUsageCost q Premium) = max 1 \<lfloor>real (calculateUsageCost q Basic) * 0.8\<rfloor>
   \<and> int (calculateUsageCost q Enterprise) = max 1 \<lfloor>real (calculateUsageCost q Basic) * 0.5\<rfloor>"
proof -
  have b: "baseCost q = 1 \<or> baseCost q = 2 \<or> baseCost q = 3"
    by (rule baseCost_cases)
  have range: "1 \<le> calculateUsageCost q level \<and> calculateUsageCost q level \<le> 3"
    using b by (cases level) (auto simp: calculateUsageCost_def)
  have basic: "calculateUsageCost q Basic =
       1 + (if length q > 100 then 1 else 0)
         + (if includesStr q ''analysis'' \<or> includesStr q ''strategy'' then 1 else 0)"
    by (simp add: calculateUsageCost_def baseCost_def)
  have premium:
    "int (calculateUsageCost q Premium) = max 1 \<lfloor>real (calculateUsageCost q Basic) * 0.8\<rfloor>"
    using b by (auto simp: calculateUsageCost_def)
  have enterprise:
    "int (calculateUsageCost q Enterprise) = max 1 \<lfloor>real (calculateUsageCost q Basic) * 0.5\<rfloor>"
    using b by (auto simp: calculateUsageCost_def)
  from range basic premium enterprise show ?thesis by blast
qed

section \<open>The access check\<close>

lemma toLowerCase_char_idem: "toLowerCase_char (toLowerCase_char c) = toLowerCase_char c"
proof -
  have "(of_char c :: nat) < 256" by simp
  then show ?thesis
    by (auto simp: toLowerCase_char_def Let_def)
qed

lemma toLowerCase_idem: "toLowerCase (toLowerCase s) = toLowerCase s"
  by (simp add: toLowerCase_def toLowerCase_char_idem)

lemma verifyAccess_hit:
  "cacheHit ag w a f = Some r \<Longrightarrow> verifyAccess ag w a f = (r, ag, w)"
  by (simp add: verifyAccess_def)

lemma verifyAccess_demo:
  "cacheHit ag w a f = None \<Longrightarrow> demoMode ag \<Longrightarrow>
   verifyAccess ag w a f =
     (mockResult (now w), cacheSet ag (toLowerCase a) (mockResult (now w)) (now w), w)"
  by (simp add: verifyAccess_def)

lemma verifyAccess_throws:
  "cacheHit ag w a f = None \<Longrightarrow> \<not> demoMode ag \<Longrightarrow> ledger w a = Throws \<Longrightarrow>
   verifyAccess ag w a f =
     (fallbackResult (now w), cacheSet ag (toLowerCase a) (fallbackResult (now w)) (now w),
      emit (GetUserSubscription a) w)"
  by (simp add: verifyAccess_def call_getUserSubscription_def)

lemma verifyAccess_returns:
  "cacheHit ag w a f = None \<Longrightarrow> \<not> demoMode ag \<Longrightarrow> ledger w a = Returns s \<Longrightarrow>
   verifyAccess ag w a f =
     (ledgerResult s, cacheSet ag (toLowerCase a) (ledgerResult s) (now w),
      emit (GetUserSubscription a) w)"
  by (simp add: verifyAccess_def call_getUserSubscription_def)

lemma ledger_emit [simp]: "ledger (emit e w) = ledger w"
  by (rule ext) (simp add: ledger_def emit_def split: outcome.split)

lemma ledger_throwing [simp]: "ledger (w\<lparr>throwing := x\<rparr>) = ledger w"
  by (rule ext) (simp add: ledger_def split: outcome.split)

lemma ledger_trace [simp]: "ledger (w\<lparr>trace := x\<rparr>) = ledger w"
  by (rule ext) (simp add: ledger_def split: outcome.split)

lemma ledger_now [simp]: "ledger (w\<lparr>now := t\<rparr>) = ledger w"
  by (rule ext) (simp add: ledger_def split: outcome.split)

lemma verifyAccess_world:
  assumes "verifyAccess ag w a f = (r, ag1, w1)"
  shows "ledger w1 = ledger w \<and> now w1 = now w \<and> throwing w1 = throwing w
   \<and> receiptHash w1 = receiptHash w
   \<and> (trace w1 = trace w \<or> trace w1 = trace w @ [GetUserSubscription a])"
    and "chain w1 = chain w \<and> blockTime w1 = blockTime w \<and> resolve w1 = resolve w
   \<and> signer w1 = signer w"
proof -
  have "w1 = w \<or> w1 = emit (GetUserSubscription a) w"
  proof (cases "cacheHit ag w a f")
    case (Some r')
    with assms show ?thesis by (auto simp: verifyAccess_hit)
  next
    case None
    show ?thesis
    proof (cases "demoMode ag")
      case True
      with None assms show ?thesis by (auto simp: verifyAccess_demo)
    next
      case False
      with None assms show ?thesis
        by (cases "ledger w a") (auto simp: verifyAccess_throws verifyAccess_returns)
    qed
  qed
  then show "ledger w1 = ledger w \<and> now w1 = now w \<and> throwing w1 = throwing w
   \<and> receiptHash w1 = receiptHash w
   \<and> (trace w1 = trace w \<or> trace w1 = trace w @ [GetUserSubscription a])"
    and "chain w1 = chain w \<and> blockTime w1 = blockTime w \<and> resolve w1 = resolve w
   \<and> signer w1 = signer w"
    by (auto simp: emit_def)
qed

lemma verifyAccess_entry:
  assumes "verifyAccess ag w a False = (r, ag1, w1)"
  shows "\<exists>c. accessCache ag1 (toLowerCase a) = Some c \<and> ce_result c = r"
proof (cases "cacheHit ag w a False")
  case (Some r')
  with assms have "r' = r" "ag1 = ag" by (simp_all add: verifyAccess_hit)
  with Some show ?thesis
    by (auto simp: cacheHit_def split: option.splits if_splits)
next
  case None
  show ?thesis
  proof (cases "demoMode ag")
    case True
    with None assms show ?thesis by (auto simp: verifyAccess_demo cacheSet_def)
  next
    case False
    with None assms show ?thesis
      by (cases "ledger w a") (auto simp: verifyAccess_throws verifyAccess_returns cacheSet_def)
  qed
qed

lemma exampleAddress_lower:
  "toLowerCase exampleAddress = ''0x52908400098527886e0f7030069857d2e4169ee7''"
  by (simp add: exampleAddress_def toLowerCase_def toLowerCase_char_def char_of_eq_iff take_bit_eq_mod)

lemma example_read:
  assumes "ledger w exampleAddress = Returns s"
  shows "verifyAccess exampleAgent w exampleAddress False =
     (ledgerResult s, cacheSet exampleAgent (toLowerCase exampleAddress) (ledgerResult s) (now w),
      emit (GetUserSubscription exampleAddress) w)"
  using assms
  by (intro verifyAccess_returns) (simp_all add: cacheHit_def demoMode_def exampleAgent_def)

lemma example_result:
  "hasAccess (ledgerResult (exampleSubscription n)) = (n \<noteq> 0)"
  "remainingUsage (ledgerResult (exampleSubscription n)) = n"
  "accessLevel (ledgerResult (exampleSubscription n)) = Basic"
  by (simp_all add: ledgerResult_def exampleSubscription_def levelOfTier_def startsWith_def)

lemma example_contract:
  assumes "timestamp < 1800000000"
  shows "hasValidSubscription (exampleChain n) timestamp exampleUser = (n \<noteq> 0, if n = 0 then 0 else 7)"
    and "getUserSubscription (exampleChain n) timestamp exampleUser = exampleSubscription n"
  using assms
  by (simp_all add: getUserSubscription_def hasValidSubscription_def exampleChain_def
      exampleSubscription_def exampleTier_def)

lemma example_world:
  "now (exampleWorld t l n) = t"
  "blockTime (exampleWorld t l n) = nat (t div 1000)"
  "chain (exampleWorld t l n) = exampleChain n"
  "resolve (exampleWorld t l n) = l"
  "signer (exampleWorld t l n) = exampleOwner"
  "throwing (exampleWorld t l n) = None"
  "trace (exampleWorld t l n) = []"
  "receiptHash (exampleWorld t l n) = ''0x5e''"
  by (simp_all add: exampleWorld_def)

lemma example_ledger:
  "t < 1800000000000 \<Longrightarrow>
   ledger (exampleWorld t (constClient (Returns exampleUser)) n) a = Returns (exampleSubscription n)"
  "ledger (exampleWorld t (constClient Throws) n) a = Throws"
proof -
  assume "t < 1800000000000"
  then have "nat (t div 1000) < 1800000000" by simp
  then show "ledger (exampleWorld t (constClient (Returns exampleUser)) n) a =
      Returns (exampleSubscription n)"
    by (simp add: ledger_def example_world constClient_def example_contract)
next
  show "ledger (exampleWorld t (constClient Throws) n) a = Throws"
    by (simp add: ledger_def example_world constClient_def)
qed

lemma example_valid:
  "v_isValid (validateQuery ''market analysis please'' Basic)"
  by (simp add: validateQuery_def trim_def isWhiteSpace_def hasProhibited_def
      prohibitedTerms_def toLowerCase_def toLowerCase_char_def startsWith_def)

lemma example_cost: "calculateUsageCost ''market analysis please'' Basic = 2"
  by (simp add: calculateUsageCost_def baseCost_def startsWith_def)


text \<open>
  C2, as the code has it. When \<open>verifyAccess\<close> cannot serve the read from the cache (no
  entry, an entry of 60 s or older, or a forced refresh) and the ledger read fails, no error
  reaches the caller: the check returns, and caches, an entitlement that grants access. With
  no contract or no valid provider it is the demo entitlement (10 uses, premium) and no
  ledger call is made; when the contract call throws it is the fallback entitlement (5 uses,
  basic).
\<close>

theorem verifyAccess_fails_open:
  assumes "cacheHit ag w a f = None" and "demoMode ag \<or> ledger w a = Throws"
  shows "verifyAccess ag w a f =
           (if demoMode ag
            then (mockResult (now w), cacheSet ag (toLowerCase a) (mockResult (now w)) (now w), w)
            else (fallbackResult (now w),
                  cacheSet ag (toLowerCase a) (fallbackResult (now w)) (now w),
                  emit (GetUserSubscription a) w))
         \<and> hasAccess (fst (verifyAccess ag w a f))"
  using assms
  by (cases "demoMode ag")
     (simp_all add: verifyAccess_demo verifyAccess_throws mockResult_def fallbackResult_def)

theorem verifyAccess_fails_open_witness:
  "verifyAccess exampleAgent (exampleWorld 5000 (constClient Throws) 10) exampleAddress False =
     (fallbackResult 5000,
      cacheSet exampleAgent (toLowerCase exampleAddress) (fallbackResult 5000) 5000,
      emit (GetUserSubscription exampleAddress) (exampleWorld 5000 (constClient Throws) 10))
   \<and> verifyAccess (exampleAgent\<lparr>provider := False\<rparr>)
        (exampleWorld 5000 (constClient Throws) 10) exampleAddress False =
     (mockResult 5000,
      cacheSet (exampleAgent\<lparr>provider := False\<rparr>) (toLowerCase exampleAddress) (mockResult 5000) 5000,
      exampleWorld 5000 (constClient Throws) 10)"
  using verifyAccess_fails_open [of exampleAgent "exampleWorld 5000 (constClient Throws) 10"
      exampleAddress False]
    verifyAccess_fails_open [of "exampleAgent\<lparr>provider := False\<rparr>"
      "exampleWorld 5000 (constClient Throws) 10" exampleAddress False]
  by (simp add: cacheHit_def demoMode_def exampleAgent_def example_ledger example_world)


text \<open>
  C2 as stated fails: with nothing cached, an agent without a contract, and an agent whose
  contract call throws, both return an entitlement with \<open>hasAccess\<close>.
\<close>

theorem verifyAccess_fails_open_counterexample:
  "hasAccess (fst (verifyAccess (exampleAgent\<lparr>contract := False\<rparr>)
      (exampleWorld 0 (constClient Throws) 10) exampleAddress False))
   \<and> hasAccess (fst (verifyAccess exampleAgent
      (exampleWorld 0 (constClient Throws) 10) exampleAddress False))"
  by (simp add: verifyAccess_def cacheHit_def demoMode_def mockResult_def fallbackResult_def
      call_getUserSubscription_def exampleAgent_def example_ledger)


section \<open>The contract\<close>



lemma firstValid_positive:
  "firstValid c timestamp u xs = (True, k) \<Longrightarrow>
   timestamp < md_expiryTime (tokenMetadata c k) \<and> 0 < md_remainingUsage (tokenMetadata c k)"
  by (induction xs) (simp_all split: if_splits)

lemma getUserSubscription_positive:
  "isValid (getUserSubscription c timestamp u) \<Longrightarrow>
   0 < sub_remainingUsage (getUserSubscription c timestamp u)"
  using firstValid_positive [of c timestamp u "userTokens c u"]
  by (auto simp: getUserSubscription_def hasValidSubscription_def split: prod.splits if_splits)

lemma ledger_positive:
  assumes "ledger w a = Returns s" and "hasAccess (ledgerResult s)"
  shows "remainingUsage (ledgerResult s) \<noteq> 0"
proof -
  from assms(1) obtain u where "s = getUserSubscription (chain w) (blockTime w) u"
    by (auto simp: ledger_def split: outcome.splits)
  with assms(2) getUserSubscription_positive [of "chain w" "blockTime w" u] show ?thesis
    by (simp add: ledgerResult_def)
qed


section \<open>processQuery\<close>

lemma processQuery_after_access:
  assumes "verifyAccess ag w a False = (r, ag1, w1)"
  shows "processQuery ag w a q sid =
     (if \<not> hasAccess r then
        (failure ACCESS_DENIED, ag1, emit (SecurityLog ''ACCESS_DENIED'') w1)
      else if remainingUsage r = 0 then
        (failure QUOTA_EXCEEDED, ag1, emit (SecurityLog ''QUOTA_EXCEEDED'') w1)
      else if \<not> v_isValid (validateQuery q (accessLevel r)) then
        (\<lparr>success = False, response = None, error = v_error (validateQuery q (accessLevel r)),
          usageConsumed = None, transactionHash = None\<rparr>, ag1, w1)
      else
        (case execute ag1 w1 a q (queryContextOf w a q sid) (accessLevel r) of
           (Returns (res, ag2), w2) \<Rightarrow> (res, ag2, w2)
         | (Throws, w2) \<Rightarrow>
             (failure PROCESSING_ERROR, ag1, emit (SecurityLog ''PROCESSING_ERROR'') w2)))"
  by (simp add: processQuery_def assms Let_def queryContextOf_def)

lemma execute_throws:
  assumes "throwing w = Some st"
  shows "execute ag w a q c level =
     (Throws, if st = GenerateProof then emit (ResponseGenerated q level) w else w)"
  using assms
  by (cases st)
     (simp_all add: execute_def processTEE_def generateEnhancedAIResponse_def
        generateVerificationProof_def emit_def Let_def)

lemma execute_returns:
  assumes "throwing w = None"
  shows "execute ag w a q c level =
     (let r = \<lparr>content = js (responses (responseCategory q) level),
               confidence = categoryConfidence (responseCategory q),
               sources = map js (generateSources (responseCategory q) level),
               verificationProof = None\<rparr>;
          w1 = emit (ResponseGenerated q level) w;
          cost = calculateUsageCost q level;
          tx = consumeUsageWithLogging ag w1 a cost
      in (Returns
            (\<lparr>success = True,
              response = Some (r\<lparr>verificationProof := Some (issueProof (now w) c r)\<rparr>),
              error = None, usageConsumed = Some cost, transactionHash = Some (fst tx)\<rparr>,
             ag\<lparr>accessCache := (accessCache ag)(toLowerCase a := None)\<rparr>),
          emit (QueryLog ''SUCCESSFUL_QUERY'') (snd tx)))"
  using assms
  by (simp add: execute_def processTEE_def generateEnhancedAIResponse_def
        generateVerificationProof_def emit_def Let_def split_beta)



lemma call_consumeUsage_reverts:
  assumes "resolve w a = Returns u"
    and "hasValidSubscription (chain w) (blockTime w) u = (v, k)"
    and "\<not> v \<or> md_remainingUsage (tokenMetadata (chain w) k) < n"
  shows "call_consumeUsage w a n = (Throws, emit (ConsumeUsage a n) w)"
  using assms by (auto simp: call_consumeUsage_def consumeUsage_def Let_def)





lemma processQuery_cache:
  assumes "verifyAccess ag w a False = (r, ag1, w1)"
  shows "accessCache (fst (snd (processQuery ag w a q sid))) =
     (if success (fst (processQuery ag w a q sid))
      then (accessCache ag1)(toLowerCase a := None) else accessCache ag1)"
proof (cases "throwing w1")
  case None
  then show ?thesis
    using processQuery_after_access [OF assms, of q sid]
    by (simp add: execute_returns Let_def failure_def queryContextOf_def)
next
  case (Some st)
  then show ?thesis
    using processQuery_after_access [OF assms, of q sid]
    by (simp add: execute_throws failure_def)
qed



text \<open>
  C9, as the code has it. When the access check reads the ledger (a contract and a valid
  provider are set, and the cache has no entry younger than 60 s for the subscriber) and the
  ledger reports no valid subscription, every query is rejected with the access-denied
  failure: the only effects are the one ledger read and the \<open>ACCESS_DENIED\<close> log line, so
  no response is generated and no usage is committed.
\<close>

theorem no_access_rejected:
  assumes "cacheHit ag w a False = None" and "\<not> demoMode ag"
    and "ledger w a = Returns s" and "\<not> isValid s"
  shows "processQuery ag w a q sid =
           (failure ACCESS_DENIED, cacheSet ag (toLowerCase a) (ledgerResult s) (now w),
            w\<lparr>trace := trace w @ [GetUserSubscription a, SecurityLog ''ACCESS_DENIED'']\<rparr>)"
proof -
  have "verifyAccess ag w a False =
      (ledgerResult s, cacheSet ag (toLowerCase a) (ledgerResult s) (now w),
       emit (GetUserSubscription a) w)"
    using assms(1-3) by (rule verifyAccess_returns)
  from processQuery_after_access [OF this] assms(4) show ?thesis
    by (simp add: ledgerResult_def emit_def)
qed

theorem no_access_rejected_witness:
  "processQuery exampleAgent (exampleWorld 0 (constClient (Returns exampleUser)) 0)
     exampleAddress ''market analysis please'' ''s1'' =
   (failure ACCESS_DENIED,
    cacheSet exampleAgent (toLowerCase exampleAddress)
      (ledgerResult (exampleSubscription 0)) 0,
    (exampleWorld 0 (constClient (Returns exampleUser)) 0)
      \<lparr>trace := [GetUserSubscription exampleAddress, SecurityLog ''ACCESS_DENIED'']\<rparr>)"
  using no_access_rejected [of exampleAgent
      "exampleWorld 0 (constClient (Returns exampleUser)) 0" exampleAddress
      "exampleSubscription 0" "''market analysis please''" "''s1''"]
  by (simp add: example_ledger example_world cacheHit_def demoMode_def exampleAgent_def
      exampleSubscription_def)


text \<open>
  C9 as stated fails while a cached entitlement is younger than 60 s. The subscriber's
  subscription is valid when it is read at instant 0; at instant 30000 the ledger reports no
  valid subscription, and the query is still served from the cached entitlement: it succeeds,
  a response is generated and a commit is attempted.
\<close>

theorem no_access_rejected_counterexample:
  "ledger (exampleWorld 30000 (constClient (Returns exampleUser)) 0) exampleAddress =
     Returns (exampleSubscription 0)
   \<and> \<not> isValid (exampleSubscription 0)
   \<and> success (fst (processQuery
      (fst (snd (verifyAccess exampleAgent
         (exampleWorld 0 (constClient (Returns exampleUser)) 10)
         exampleAddress False)))
      (exampleWorld 30000 (constClient (Returns exampleUser)) 0)
      exampleAddress ''hi'' ''s1''))
   \<and> trace (snd (snd (processQuery
      (fst (snd (verifyAccess exampleAgent
         (exampleWorld 0 (constClient (Returns exampleUser)) 10)
         exampleAddress False)))
      (exampleWorld 30000 (constClient (Returns exampleUser)) 0)
      exampleAddress ''hi'' ''s1''))) =
     [ResponseGenerated ''hi'' Basic, ConsumeUsage exampleAddress 1,
      QueryLog ''SUCCESSFUL_QUERY'']"
proof -
  let ?v = "exampleWorld 0 (constClient (Returns exampleUser)) 10"
  let ?w = "exampleWorld 30000 (constClient (Returns exampleUser)) 0"
  let ?r = "ledgerResult (exampleSubscription 10)"
  let ?ag1 = "cacheSet exampleAgent (toLowerCase exampleAddress) ?r 0"
  have read: "verifyAccess exampleAgent ?v exampleAddress False =
      (?r, ?ag1, emit (GetUserSubscription exampleAddress) ?v)"
    using example_read [of ?v "exampleSubscription 10"]
    by (simp add: example_ledger example_world)
  have hit: "verifyAccess ?ag1 ?w exampleAddress False = (?r, ?ag1, ?w)"
    using verifyAccess_hit [of ?ag1 ?w exampleAddress False ?r]
    by (simp add: cacheHit_def cacheSet_def CACHE_DURATION_def example_world)
  have gone: "ledger ?w exampleAddress = Returns (exampleSubscription 0)"
    "\<not> isValid (exampleSubscription 0)"
    by (simp_all add: example_ledger exampleSubscription_def)
  have valid: "v_isValid (validateQuery ''hi'' Basic)"
    by (simp add: validateQuery_def trim_def isWhiteSpace_def hasProhibited_def
        prohibitedTerms_def toLowerCase_def toLowerCase_char_def startsWith_def)
  have cost: "calculateUsageCost ''hi'' Basic = 1"
    by (simp add: calculateUsageCost_def baseCost_def startsWith_def)
  have live: "\<not> demoMode ?ag1"
    by (simp add: demoMode_def cacheSet_def exampleAgent_def)
  have "call_consumeUsage (emit (ResponseGenerated ''hi'' Basic) ?w) exampleAddress 1 =
      (Throws, emit (ConsumeUsage exampleAddress 1) (emit (ResponseGenerated ''hi'' Basic) ?w))"
    by (rule call_consumeUsage_reverts [where u = exampleUser and v = False and k = 0])
       (simp_all add: emit_def example_world constClient_def example_contract)
  then have commit: "consumeUsageWithLogging ?ag1
      (emit (ResponseGenerated ''hi'' Basic) ?w) exampleAddress 1 =
      (''fallback_tx_'' @ toString 30000,
       emit (ConsumeUsage exampleAddress 1) (emit (ResponseGenerated ''hi'' Basic) ?w))"
    using live by (simp add: consumeUsageWithLogging_def emit_def example_world)
  have ag1: "fst (snd (verifyAccess exampleAgent ?v exampleAddress False)) = ?ag1"
    by (simp add: read)
  have "success (fst (processQuery ?ag1 ?w exampleAddress ''hi'' ''s1''))
    \<and> trace (snd (snd (processQuery ?ag1 ?w exampleAddress ''hi'' ''s1''))) =
     [ResponseGenerated ''hi'' Basic, ConsumeUsage exampleAddress 1,
      QueryLog ''SUCCESSFUL_QUERY'']"
    using processQuery_after_access [OF hit, of "''hi''" "''s1''"] valid cost commit
    by (simp add: example_result example_world execute_returns Let_def queryContextOf_def
        emit_def)
  with gone show ?thesis unfolding ag1 by simp
qed


text \<open>
  C1, as the code has it. The quota gate of \<open>processQuery\<close> compares the remaining quota
  with 0, not with the price. For an entitlement that grants access: if its remaining quota
  is 0 (below every price, which is at least 1) the request is rejected with the
  quota-exceeded failure, and nothing happens after the access check but the
  \<open>QUOTA_EXCEEDED\<close> log line; if its remaining quota is not 0, the request is never rejected
  for quota, whatever its price.
\<close>

theorem quota_gate:
  assumes "verifyAccess ag w a False = (r, ag1, w1)" and "hasAccess r"
  shows "if remainingUsage r = 0
         then remainingUsage r < calculateUsageCost q (accessLevel r)
              \<and> processQuery ag w a q sid =
                  (failure QUOTA_EXCEEDED, ag1, emit (SecurityLog ''QUOTA_EXCEEDED'') w1)
         else error (fst (processQuery ag w a q sid)) \<noteq> Some QUOTA_EXCEEDED"
proof (cases "remainingUsage r = 0")
  case True
  have "0 < calculateUsageCost q (accessLevel r)"
    using baseCost_cases [of q] by (cases "accessLevel r") (auto simp: calculateUsageCost_def)
  with True processQuery_after_access [OF assms(1)] assms(2) show ?thesis by simp
next
  case False
  have v: "v_error (validateQuery q (accessLevel r)) \<noteq> Some QUOTA_EXCEEDED"
    by (simp add: validateQuery_def QUOTA_EXCEEDED_def)
  have p: "PROCESSING_ERROR \<noteq> QUOTA_EXCEEDED"
    by (simp add: PROCESSING_ERROR_def QUOTA_EXCEEDED_def)
  show ?thesis
  proof (cases "throwing w1")
    case None
    with processQuery_after_access [OF assms(1)] assms(2) False v show ?thesis
      by (simp add: execute_returns Let_def)
  next
    case (Some st)
    with processQuery_after_access [OF assms(1)] assms(2) False v p show ?thesis
      by (simp add: execute_throws failure_def)
  qed
qed

text \<open>
  The contract answers no valid subscription with a remaining quota of 0 (lemma
  \<open>ledger_positive\<close>), and the demo and fallback entitlements have 10 and 5 uses: an
  entitlement that grants access with nothing left reaches the quota gate from the cache only. The
  example has such an entry for the first branch, and a subscription of 10 uses read from
  the contract for the second.
\<close>

theorem quota_gate_witness:
  "processQuery (cacheSet exampleAgent (toLowerCase exampleAddress) exhaustedResult 0)
     (exampleWorld 5000 (constClient (Returns exampleUser)) 10)
     exampleAddress ''market analysis please'' ''s1'' =
   (failure QUOTA_EXCEEDED,
    cacheSet exampleAgent (toLowerCase exampleAddress) exhaustedResult 0,
    emit (SecurityLog ''QUOTA_EXCEEDED'')
      (exampleWorld 5000 (constClient (Returns exampleUser)) 10))
   \<and> error (fst (processQuery exampleAgent
        (exampleWorld 5000 (constClient (Returns exampleUser)) 10)
        exampleAddress ''market analysis please'' ''s1'')) \<noteq> Some QUOTA_EXCEEDED"
proof -
  let ?ag = "cacheSet exampleAgent (toLowerCase exampleAddress) exhaustedResult 0"
  let ?w = "exampleWorld 5000 (constClient (Returns exampleUser)) 10"
  have hit: "verifyAccess ?ag ?w exampleAddress False = (exhaustedResult, ?ag, ?w)"
    by (rule verifyAccess_hit)
       (simp add: cacheHit_def cacheSet_def CACHE_DURATION_def example_world)
  have read: "verifyAccess exampleAgent ?w exampleAddress False =
     (ledgerResult (exampleSubscription 10),
      cacheSet exampleAgent (toLowerCase exampleAddress) (ledgerResult (exampleSubscription 10))
        (now ?w),
      emit (GetUserSubscription exampleAddress) ?w)"
    by (rule example_read) (simp add: example_ledger)
  show ?thesis
    using quota_gate [OF hit, of "''market analysis please''" "''s1''"]
      quota_gate [OF read, of "''market analysis please''" "''s1''"]
    by (simp add: example_result exhaustedResult_def)
qed


text \<open>
  C1 as stated fails: with a remaining quota of 1, a basic-tier query priced at 2 is executed;
  a response is generated, a commit of 2 is attempted and the call succeeds.
\<close>

theorem quota_gate_counterexample:
  "remainingUsage (fst (verifyAccess exampleAgent
      (exampleWorld 0 (constClient (Returns exampleUser)) 1) exampleAddress False)) = 1
   \<and> calculateUsageCost ''market analysis please'' Basic = 2
   \<and> success (fst (processQuery exampleAgent
        (exampleWorld 0 (constClient (Returns exampleUser)) 1)
        exampleAddress ''market analysis please'' ''s1''))
   \<and> trace (snd (snd (processQuery exampleAgent
        (exampleWorld 0 (constClient (Returns exampleUser)) 1)
        exampleAddress ''market analysis please'' ''s1''))) =
      [GetUserSubscription exampleAddress,
       ResponseGenerated ''market analysis please'' Basic,
       ConsumeUsage exampleAddress 2, QueryLog ''SUCCESSFUL_QUERY'']"
proof -
  let ?w = "exampleWorld 0 (constClient (Returns exampleUser)) 1"
  let ?q = "''market analysis please''"
  have read: "verifyAccess exampleAgent ?w exampleAddress False =
     (ledgerResult (exampleSubscription 1),
      cacheSet exampleAgent (toLowerCase exampleAddress) (ledgerResult (exampleSubscription 1)) (now ?w),
      emit (GetUserSubscription exampleAddress) ?w)"
    by (rule example_read) (simp add: example_ledger)
  have "call_consumeUsage
      (emit (ResponseGenerated ?q Basic) (emit (GetUserSubscription exampleAddress) ?w))
      exampleAddress 2 =
      (Throws, emit (ConsumeUsage exampleAddress 2)
         (emit (ResponseGenerated ?q Basic) (emit (GetUserSubscription exampleAddress) ?w)))"
    by (rule call_consumeUsage_reverts [where u = exampleUser and v = True and k = 7])
       (simp_all add: emit_def example_world constClient_def example_contract,
        simp add: exampleChain_def)
  then have commit: "consumeUsageWithLogging
      (cacheSet exampleAgent (toLowerCase exampleAddress) (ledgerResult (exampleSubscription 1)) (now ?w))
      (emit (ResponseGenerated ?q Basic) (emit (GetUserSubscription exampleAddress) ?w))
      exampleAddress 2 =
      (''fallback_tx_'' @ toString 0,
       emit (ConsumeUsage exampleAddress 2)
         (emit (ResponseGenerated ?q Basic) (emit (GetUserSubscription exampleAddress) ?w)))"
    by (simp add: consumeUsageWithLogging_def emit_def example_world
        demoMode_def cacheSet_def exampleAgent_def)
  have quota: "remainingUsage (fst (verifyAccess exampleAgent ?w exampleAddress False)) = 1"
    by (simp only: read fst_conv example_result)
  have run: "success (fst (processQuery exampleAgent ?w exampleAddress ?q ''s1''))
    \<and> trace (snd (snd (processQuery exampleAgent ?w exampleAddress ?q ''s1''))) =
      [GetUserSubscription exampleAddress, ResponseGenerated ?q Basic,
       ConsumeUsage exampleAddress 2, QueryLog ''SUCCESSFUL_QUERY'']"
    using processQuery_after_access [OF read, of ?q "''s1''"] commit
    by (simp add: example_result example_valid example_cost example_world
        execute_returns Let_def queryContextOf_def emit_def)
  from quota example_cost run show ?thesis by blast
qed


text \<open>
  C3. If a step of the capability throws in a run of \<open>processQuery\<close> that reaches it (access
  granted, remaining quota not 0, query valid), the outcome is the processing failure. The
  agent, with its cache, is as the access check left it, and the entitlement that the check
  returned is still cached; the ledger answers as before and the storage of the contract is
  unchanged; after the access check the trace has
  only a generated response (when it is the proof that throws) and the \<open>PROCESSING_ERROR\<close>
  log line, so no \<open>consumeUsage\<close> call is made.
\<close>

theorem execution_failure_keeps_quota:
  assumes "verifyAccess ag w a False = (r, ag1, w1)"
    and "hasAccess r" and "remainingUsage r \<noteq> 0"
    and "v_isValid (validateQuery q (accessLevel r))"
    and "throwing w = Some st"
  shows "processQuery ag w a q sid =
           (failure PROCESSING_ERROR, ag1,
            w1\<lparr>trace := trace w1
                  @ (if st = GenerateProof then [ResponseGenerated q (accessLevel r)] else [])
                  @ [SecurityLog ''PROCESSING_ERROR'']\<rparr>)
         \<and> ledger w1 = ledger w
         \<and> chain w1 = chain w
         \<and> (\<exists>c. accessCache ag1 (toLowerCase a) = Some c \<and> ce_result c = r)"
proof -
  from verifyAccess_world [OF assms(1)]
  have w1: "throwing w1 = Some st" "ledger w1 = ledger w" "chain w1 = chain w"
    using assms(5) by simp_all
  from processQuery_after_access [OF assms(1)] assms(2-4) w1 verifyAccess_entry [OF assms(1)]
  show ?thesis
    by (simp add: execute_throws emit_def queryContextOf_def)
qed

theorem execution_failure_keeps_quota_witness:
  "processQuery exampleAgent
     ((exampleWorld 0 (constClient (Returns exampleUser)) 10)
        \<lparr>throwing := Some GenerateProof\<rparr>)
     exampleAddress ''market analysis please'' ''s1'' =
   (failure PROCESSING_ERROR,
    cacheSet exampleAgent (toLowerCase exampleAddress)
      (ledgerResult (exampleSubscription 10)) 0,
    (exampleWorld 0 (constClient (Returns exampleUser)) 10)
      \<lparr>throwing := Some GenerateProof,
        trace := [GetUserSubscription exampleAddress,
                  ResponseGenerated ''market analysis please'' Basic,
                  SecurityLog ''PROCESSING_ERROR'']\<rparr>)"
  using execution_failure_keeps_quota [OF example_read,
      of "(exampleWorld 0 (constClient (Returns exampleUser)) 10)
            \<lparr>throwing := Some GenerateProof\<rparr>"
         "exampleSubscription 10" "''market analysis please''" GenerateProof "''s1''"]
  by (simp add: example_result example_valid example_ledger example_world emit_def)

text \<open>
  C8, as the code has it. A payload that is empty or all white space, is longer than 1000
  characters, or has a prohibited term is never executed and commits no usage, but its
  validation comes after the access check: the request is rejected with the access-denied or
  quota-exceeded failure if the entitlement says so, and with the invalid-request failure
  otherwise. The agent is as the access check left it, which may have read the ledger once
  and written the cache entry; the ledger answers as before and the storage of the contract
  is unchanged.
\<close>

theorem invalid_payload_rejected:
  assumes "trim q = [] \<or> length q > 1000 \<or> hasProhibited q"
    and "verifyAccess ag w a False = (r, ag1, w1)"
  shows "processQuery ag w a q sid =
           (if \<not> hasAccess r then
              (failure ACCESS_DENIED, ag1, emit (SecurityLog ''ACCESS_DENIED'') w1)
            else if remainingUsage r = 0 then
              (failure QUOTA_EXCEEDED, ag1, emit (SecurityLog ''QUOTA_EXCEEDED'') w1)
            else
              (failure (if trim q = [] \<or> length q > 1000
                        then ''Query must be between 1-1000 characters.''
                        else ''Query contains prohibited content.''), ag1, w1))
         \<and> ledger w1 = ledger w
         \<and> chain w1 = chain w
         \<and> (trace w1 = trace w \<or> trace w1 = trace w @ [GetUserSubscription a])"
proof -
  have "validateQuery q (accessLevel r) =
      \<lparr>v_isValid = False,
       v_error = Some (if trim q = [] \<or> length q > 1000
                       then ''Query must be between 1-1000 characters.''
                       else ''Query contains prohibited content.'')\<rparr>"
    using assms(1) by (auto simp: validateQuery_def)
  with processQuery_after_access [OF assms(2)] verifyAccess_world [OF assms(2)]
  show ?thesis by (simp add: failure_def)
qed

theorem invalid_payload_rejected_witness:
  "processQuery exampleAgent (exampleWorld 0 (constClient (Returns exampleUser)) 10)
     exampleAddress ''how to hack a wallet'' ''s1'' =
   (failure ''Query contains prohibited content.'',
    cacheSet exampleAgent (toLowerCase exampleAddress)
      (ledgerResult (exampleSubscription 10)) 0,
    emit (GetUserSubscription exampleAddress)
      (exampleWorld 0 (constClient (Returns exampleUser)) 10))"
proof -
  have bad: "hasProhibited ''how to hack a wallet''"
    by (simp add: hasProhibited_def prohibitedTerms_def toLowerCase_def toLowerCase_char_def
        startsWith_def)
  have long: "trim ''how to hack a wallet'' \<noteq> []"
    by (simp add: trim_def isWhiteSpace_def)
  show ?thesis
    using invalid_payload_rejected [OF _ example_read,
        of "''how to hack a wallet''"
           "exampleWorld 0 (constClient (Returns exampleUser)) 10"
           "exampleSubscription 10" "''s1''"] bad long
    by (simp add: example_result example_ledger example_world)
qed


text \<open>
  C8 as stated fails: the empty payload of a subscriber with nothing cached is rejected after
  one ledger read, and the subscriber's cache entry is written; for a subscriber without a
  valid subscription the empty payload is rejected with the access-denied failure.
\<close>

theorem invalid_payload_rejected_counterexample:
  "trace (snd (snd (processQuery exampleAgent
      (exampleWorld 0 (constClient (Returns exampleUser)) 10)
      exampleAddress [] ''s1''))) = [GetUserSubscription exampleAddress]
   \<and> accessCache exampleAgent (toLowerCase exampleAddress) = None
   \<and> accessCache (fst (snd (processQuery exampleAgent
        (exampleWorld 0 (constClient (Returns exampleUser)) 10)
        exampleAddress [] ''s1''))) (toLowerCase exampleAddress) =
      Some \<lparr>ce_result = ledgerResult (exampleSubscription 10), ce_timestamp = 0\<rparr>
   \<and> error (fst (processQuery exampleAgent
        (exampleWorld 0 (constClient (Returns exampleUser)) 0)
        exampleAddress [] ''s1'')) = Some ACCESS_DENIED"
proof -
  have v: "\<not> v_isValid (validateQuery [] Basic)"
    by (simp add: validateQuery_def trim_def)
  have r1: "verifyAccess exampleAgent
      (exampleWorld 0 (constClient (Returns exampleUser)) 10) exampleAddress False =
     (ledgerResult (exampleSubscription 10),
      cacheSet exampleAgent (toLowerCase exampleAddress) (ledgerResult (exampleSubscription 10))
        (now (exampleWorld 0 (constClient (Returns exampleUser)) 10)),
      emit (GetUserSubscription exampleAddress)
        (exampleWorld 0 (constClient (Returns exampleUser)) 10))"
    by (rule example_read) (simp add: example_ledger)
  have r2: "verifyAccess exampleAgent
      (exampleWorld 0 (constClient (Returns exampleUser)) 0) exampleAddress False =
     (ledgerResult (exampleSubscription 0),
      cacheSet exampleAgent (toLowerCase exampleAddress) (ledgerResult (exampleSubscription 0))
        (now (exampleWorld 0 (constClient (Returns exampleUser)) 0)),
      emit (GetUserSubscription exampleAddress)
        (exampleWorld 0 (constClient (Returns exampleUser)) 0))"
    by (rule example_read) (simp add: example_ledger)
  show ?thesis
    using processQuery_after_access [OF r1, of "[]" "''s1''"]
      processQuery_after_access [OF r2, of "[]" "''s1''"] v
    by (simp add: example_result example_world emit_def cacheSet_def failure_def
        exampleAgent_def)
qed



section \<open>The access cache\<close>







section \<open>Letter case of the subscriber address\<close>

lemma cacheHit_lower: "cacheHit ag w (toLowerCase a) f = cacheHit ag w a f"
  by (simp add: cacheHit_def toLowerCase_idem)

lemma checkRateLimit_lower:
  "checkRateLimit m t (toLowerCase a) mx wd = checkRateLimit m t a mx wd"
  by (simp add: checkRateLimit_def toLowerCase_idem)

lemma verifyAccess_lower:
  assumes "ledger w (toLowerCase a) = ledger w a \<or> demoMode ag \<or> cacheHit ag w a f \<noteq> None"
  shows "fst (verifyAccess ag w (toLowerCase a) f) = fst (verifyAccess ag w a f)
     \<and> fst (snd (verifyAccess ag w (toLowerCase a) f)) = fst (snd (verifyAccess ag w a f))"
proof (cases "cacheHit ag w a f")
  case (Some r)
  then show ?thesis by (simp add: verifyAccess_hit cacheHit_lower)
next
  case None
  show ?thesis
  proof (cases "demoMode ag")
    case True
    with None show ?thesis by (simp add: verifyAccess_demo cacheHit_lower toLowerCase_idem)
  next
    case False
    with None assms have eq: "ledger w (toLowerCase a) = ledger w a" by simp
    show ?thesis
    proof (cases "ledger w a")
      case Throws
      with None False eq show ?thesis
        by (simp add: verifyAccess_throws cacheHit_lower toLowerCase_idem)
    next
      case (Returns s)
      with None False eq show ?thesis
        by (simp add: verifyAccess_returns cacheHit_lower toLowerCase_idem)
    qed
  qed
qed


text \<open>
  C10, as the code has it. The rate limiter and the access cache are keyed by the address in
  lower case: \<open>checkRateLimit\<close> on an address and on its lower-case form are the same; an
  access check leaves the entitlement it returns cached under the lower-case address, and
  \<open>processQuery\<close> removes exactly that entry when it succeeds and leaves the cache as the
  check left it when it fails. The contract is called with the address as given, so
  \<open>verifyAccess\<close> on an address and on its lower-case form return the same entitlement and
  leave the same agent when the read is served from the cache, when the agent has no
  contract, or when the ledger answers both spellings alike.
\<close>

theorem address_case_normalised:
  "checkRateLimit m t (toLowerCase a) mx wd = checkRateLimit m t a mx wd
   \<and> (ledger w (toLowerCase a) = ledger w a \<or> demoMode ag \<or> cacheHit ag w a f \<noteq> None \<longrightarrow>
        fst (verifyAccess ag w (toLowerCase a) f) = fst (verifyAccess ag w a f)
        \<and> fst (snd (verifyAccess ag w (toLowerCase a) f)) = fst (snd (verifyAccess ag w a f)))
   \<and> (\<exists>c. accessCache (fst (snd (verifyAccess ag w a False))) (toLowerCase a) = Some c
          \<and> ce_result c = fst (verifyAccess ag w a False))
   \<and> accessCache (fst (snd (processQuery ag w a q sid))) =
       (if success (fst (processQuery ag w a q sid))
        then (accessCache (fst (snd (verifyAccess ag w a False))))(toLowerCase a := None)
        else accessCache (fst (snd (verifyAccess ag w a False))))"
proof -
  obtain r ag1 w1 where va: "verifyAccess ag w a False = (r, ag1, w1)"
    by (cases "verifyAccess ag w a False") auto
  have "\<exists>c. accessCache (fst (snd (verifyAccess ag w a False))) (toLowerCase a) = Some c
          \<and> ce_result c = fst (verifyAccess ag w a False)"
    using verifyAccess_entry [OF va] by (simp add: va)
  moreover have "accessCache (fst (snd (processQuery ag w a q sid))) =
       (if success (fst (processQuery ag w a q sid))
        then (accessCache (fst (snd (verifyAccess ag w a False))))(toLowerCase a := None)
        else accessCache (fst (snd (verifyAccess ag w a False))))"
    using processQuery_cache [OF va, of q sid] by (simp add: va)
  ultimately show ?thesis
    using checkRateLimit_lower [of m t a mx wd] verifyAccess_lower [of w a ag f] by blast
qed

theorem address_case_normalised_witness:
  "checkRateLimit Map.empty 0 (toLowerCase exampleAddress) 10 60000 =
     checkRateLimit Map.empty 0 exampleAddress 10 60000
   \<and> fst (verifyAccess exampleAgent (exampleWorld 0 (constClient (Returns exampleUser)) 10)
        (toLowerCase exampleAddress) False) =
     fst (verifyAccess exampleAgent (exampleWorld 0 (constClient (Returns exampleUser)) 10)
        exampleAddress False)
   \<and> accessCache (fst (snd (verifyAccess exampleAgent
        (exampleWorld 0 (constClient (Returns exampleUser)) 10)
        (toLowerCase exampleAddress) False))) =
     accessCache (fst (snd (verifyAccess exampleAgent
        (exampleWorld 0 (constClient (Returns exampleUser)) 10)
        exampleAddress False)))"
  using address_case_normalised [where a = exampleAddress and ag = exampleAgent and f = False
      and w = "exampleWorld 0 (constClient (Returns exampleUser)) 10"
      and m = Map.empty and t = 0 and mx = 10 and wd = 60000]
  by (simp add: example_ledger)


text \<open>
  C10 as stated fails for \<open>verifyAccess\<close> when the ledger call tells the spellings apart:
  the call with the mixed-case address throws, and the check returns the fallback
  entitlement of 5 uses, while the lower-case address gets the subscription of 1000 uses.
\<close>

theorem address_case_normalised_counterexample:
  "remainingUsage (fst (verifyAccess exampleAgent
      (exampleWorld 0 (lowerCaseClient exampleUser) 1000)
      exampleAddress False)) = 5
   \<and> remainingUsage (fst (verifyAccess exampleAgent
      (exampleWorld 0 (lowerCaseClient exampleUser) 1000)
      (toLowerCase exampleAddress) False)) = 1000"
proof -
  let ?w = "exampleWorld 0 (lowerCaseClient exampleUser) 1000"
  have miss: "cacheHit exampleAgent ?w a False = None" for a
    by (simp add: cacheHit_def exampleAgent_def)
  have live: "\<not> demoMode exampleAgent"
    by (simp add: demoMode_def exampleAgent_def)
  have mixed: "exampleAddress \<noteq> toLowerCase exampleAddress"
    by (simp add: exampleAddress_lower) (simp add: exampleAddress_def)
  have "ledger ?w exampleAddress = Throws"
    using mixed by (simp add: ledger_def example_world lowerCaseClient_def)
  from verifyAccess_throws [OF miss live this]
  have a: "remainingUsage (fst (verifyAccess exampleAgent ?w exampleAddress False)) = 5"
    by (simp add: fallbackResult_def)
  have "ledger ?w (toLowerCase exampleAddress) = Returns (exampleSubscription 1000)"
    by (simp add: ledger_def example_world lowerCaseClient_def toLowerCase_idem
        example_contract)
  from verifyAccess_returns [OF miss live this]
  have b: "remainingUsage (fst (verifyAccess exampleAgent ?w (toLowerCase exampleAddress) False)) = 1000"
    by (simp add: example_result)
  from a b show ?thesis by blast
qed



section \<open>Receipts\<close>

subsection \<open>Code units\<close>

lemma unat_codeUnit: "n < 65536 \<Longrightarrow> unat (codeUnit n) = n"
  by (simp add: codeUnit_def unat_of_nat)

lemma codeUnit_unat: "codeUnit (unat u) = u"
  by (simp add: codeUnit_def)

lemma unat_bound16: "unat (u :: 16 word) < 65536"
  using unsigned_less [of u, where ?'a = nat] by simp

lemma unat_inject16: "(u = v) = (unat u = unat (v :: 16 word))"
  by (simp add: word_unat_eq_iff)

lemma base64_value_char: "i < 64 \<Longrightarrow> base64_value (base64_char i) = Some i"
proof -
  assume i: "i < 64"
  consider "i < 26" | "26 \<le> i" "i < 52" | "52 \<le> i" "i < 62" | "i = 62" | "i = 63"
    using i by linarith
  then show ?thesis
  proof cases
    case 1
    then show ?thesis by (simp add: base64_value_def base64_char_def unat_codeUnit Let_def)
  next
    case 2
    then show ?thesis by (simp add: base64_value_def base64_char_def unat_codeUnit Let_def)
  next
    case 3
    then show ?thesis
      by (simp add: base64_value_def base64_char_def unat_codeUnit Let_def) arith
  next
    case 4
    then show ?thesis by (simp add: base64_value_def base64_char_def unat_codeUnit)
  next
    case 5
    then show ?thesis by (simp add: base64_value_def base64_char_def unat_codeUnit)
  qed
qed

lemma digits64_3:
  fixes n :: nat
  obtains a b c where "n = (a * 64 + b) * 64 + c" "b < 64" "c < 64"
    "n div 4096 = a" "n div 64 mod 64 = b" "n mod 64 = c"
proof
  have "n div 4096 = n div (64 * 64)" by simp
  also have "\<dots> = n div 64 div 64" by (simp only: div_mult2_eq)
  finally show "n div 4096 = n div 64 div 64" .
  show "n = (n div 64 div 64 * 64 + n div 64 mod 64) * 64 + n mod 64" by simp
qed simp_all

lemma digits64_4:
  fixes n :: nat
  obtains a b c d where "n = ((a * 64 + b) * 64 + c) * 64 + d" "b < 64" "c < 64" "d < 64"
    "n div 262144 = a" "n div 4096 mod 64 = b" "n div 64 mod 64 = c" "n mod 64 = d"
proof
  have e: "n div 4096 = n div 64 div 64"
  proof -
    have "n div 4096 = n div (64 * 64)" by simp
    also have "\<dots> = n div 64 div 64" by (simp only: div_mult2_eq)
    finally show ?thesis .
  qed
  have "n div 262144 = n div (4096 * 64)" by simp
  also have "\<dots> = n div 4096 div 64" by (simp only: div_mult2_eq)
  finally show "n div 262144 = n div 64 div 64 div 64" by (simp only: e)
  show "n div 4096 mod 64 = n div 64 div 64 mod 64" by (simp only: e)
  show "n = ((n div 64 div 64 div 64 * 64 + n div 64 div 64 mod 64) * 64 + n div 64 mod 64) * 64
      + n mod 64" by simp
qed simp_all

lemma utf8_two:
  assumes "2 \<le> a" "a < 32" "b < 64"
  shows "utf8_points None (char_of (0xC0 + a) # char_of (0x80 + b) # bs) =
           (a * 64 + b) # utf8_points None bs"
  using assms by (simp add: utf8_lead_def Let_def)

lemma utf8_three:
  assumes "a < 16" "b < 64" "c < 64" "a = 0 \<longrightarrow> 32 \<le> b" "a = 13 \<longrightarrow> b < 32"
  shows "utf8_points None (char_of (0xE0 + a) # char_of (0x80 + b) # char_of (0x80 + c) # bs) =
           ((a * 64 + b) * 64 + c) # utf8_points None bs"
  using assms by (auto simp: utf8_lead_def Let_def)

lemma utf8_four:
  assumes "a \<le> 4" "b < 64" "c < 64" "d < 64" "a = 0 \<longrightarrow> 16 \<le> b" "a = 4 \<longrightarrow> b < 16"
  shows "utf8_points None (char_of (0xF0 + a) # char_of (0x80 + b) # char_of (0x80 + c)
            # char_of (0x80 + d) # bs) =
           (((a * 64 + b) * 64 + c) * 64 + d) # utf8_points None bs"
  using assms by (auto simp: utf8_lead_def Let_def)

lemma utf8_points_encode_point:
  assumes "n < 0x110000" and "\<not> (0xD800 \<le> n \<and> n \<le> 0xDFFF)"
  shows "utf8_points None (utf8_encode_point n @ bs) = n # utf8_points None bs"
proof -
  consider "n < 0x80" | "0x80 \<le> n" "n < 0x800" | "0x800 \<le> n" "n < 0x10000" | "0x10000 \<le> n"
    by linarith
  then show ?thesis
  proof cases
    case 1
    then show ?thesis by (simp add: utf8_encode_point_def)
  next
    case 2
    have b: "n mod 64 < 64" by simp
    have n: "n = n div 64 * 64 + n mod 64" by simp
    from 2 n b have "2 \<le> n div 64" "n div 64 < 32" by linarith+
    from utf8_two [OF this b, of bs] 2 show ?thesis
      by (simp add: utf8_encode_point_def)
  next
    case 3
    obtain a b c where d: "n = (a * 64 + b) * 64 + c" "b < 64" "c < 64"
      "n div 4096 = a" "n div 64 mod 64 = b" "n mod 64 = c"
      by (rule digits64_3)
    from 3 d(1-3) have a: "a < 16" by auto
    from 3 d(1-3) have lo: "a = 0 \<longrightarrow> 32 \<le> b" by auto
    from assms(2) d(1-3) have hi: "a = 13 \<longrightarrow> b < 32" by auto
    from utf8_three [OF a d(2,3) lo hi, of bs] 3 d show ?thesis
      by (simp add: utf8_encode_point_def)
  next
    case 4
    obtain a b c d where d: "n = ((a * 64 + b) * 64 + c) * 64 + d" "b < 64" "c < 64" "d < 64"
      "n div 262144 = a" "n div 4096 mod 64 = b" "n div 64 mod 64 = c" "n mod 64 = d"
      by (rule digits64_4)
    from assms(1) d(1-4) have a: "a \<le> 4" by auto
    from 4 d(1-4) have lo: "a = 0 \<longrightarrow> 16 \<le> b" by auto
    from assms(1) d(1-4) have hi: "a = 4 \<longrightarrow> b < 16" by auto
    from utf8_four [OF a d(2-4) lo hi, of bs] 4 d show ?thesis
      by (simp add: utf8_encode_point_def)
  qed
qed

lemma surrogate_ranges:
  "isSurrogate u = (0xD800 \<le> unat u \<and> unat u \<le> 0xDFFF)"
  by (auto simp: isSurrogate_def isLeadSurrogate_def isTrailSurrogate_def)

lemma utf16_unit: "utf16 (unat u) = [u]"
  using unat_bound16 [of u] by (simp add: utf16_def codeUnit_unat)

lemma utf16_surrogatePair:
  assumes "isLeadSurrogate u" and "isTrailSurrogate v"
  shows "utf16 (surrogatePair u v) = [u, v]"
    and "surrogatePair u v < 0x110000"
    and "\<not> (0xD800 \<le> surrogatePair u v \<and> surrogatePair u v \<le> 0xDFFF)"
proof -
  define a where "a = unat u - 0xD800"
  define b where "b = unat v - 0xDC00"
  have a: "a < 0x400" "unat u = a + 0xD800"
    using assms(1) by (auto simp: a_def isLeadSurrogate_def)
  have b: "b < 0x400" "unat v = b + 0xDC00"
    using assms(2) by (auto simp: b_def isTrailSurrogate_def)
  have p: "surrogatePair u v = a * 0x400 + b + 0x10000"
    by (simp add: surrogatePair_def a_def b_def)
  have "codeUnit (a + 0xD800) = u" "codeUnit (b + 0xDC00) = v"
    using a(2) b(2) codeUnit_unat [of u] codeUnit_unat [of v] by simp_all
  then show "utf16 (surrogatePair u v) = [u, v]"
    using b(1) by (simp add: p utf16_def)
  show "surrogatePair u v < 0x110000" using a(1) b(1) by (simp add: p)
  show "\<not> (0xD800 \<le> surrogatePair u v \<and> surrogatePair u v \<le> 0xDFFF)" by (simp add: p)
qed

lemma utf8_decode_encode:
  "wellFormed s \<Longrightarrow> utf8_decode (utf8_encode s) = s"
proof (induction s rule: utf8_encode.induct)
  case 1
  then show ?case by (simp add: utf8_decode_def)
next
  case (2 u)
  then have "utf8_points None (utf8_encode_point (unat u) @ []) = unat u # utf8_points None []"
    using unat_bound16 [of u]
    by (intro utf8_points_encode_point) (simp_all add: surrogate_ranges)
  with 2 show ?case
    by (simp add: utf8_decode_def utf8_encode_unit_def utf16_unit)
next
  case (3 u v s)
  show ?case
  proof (cases "isLeadSurrogate u \<and> isTrailSurrogate v")
    case True
    then have p: "utf8_points None (utf8_encode_point (surrogatePair u v) @ utf8_encode s) =
        surrogatePair u v # utf8_points None (utf8_encode s)"
      by (intro utf8_points_encode_point) (simp_all add: utf16_surrogatePair)
    from True "3.prems" have "utf8_decode (utf8_encode s) = s"
      by (intro "3.IH"(1)) simp_all
    with True p show ?thesis
      by (simp add: utf8_decode_def utf16_surrogatePair)
  next
    case False
    with "3.prems" have u: "\<not> isSurrogate u" and w: "wellFormed (v # s)" by simp_all
    have p: "utf8_points None (utf8_encode_point (unat u) @ utf8_encode (v # s)) =
        unat u # utf8_points None (utf8_encode (v # s))"
      using u unat_bound16 [of u]
      by (intro utf8_points_encode_point) (simp_all add: surrogate_ranges)
    from False w have "utf8_decode (utf8_encode (v # s)) = v # s"
      by (intro "3.IH"(2)) simp_all
    moreover have "\<not> isLeadSurrogate u" using u by (simp add: isSurrogate_def)
    ultimately show ?thesis
      using u p by (simp add: utf8_decode_def utf8_encode_unit_def utf16_unit)
  qed
qed

lemma wellFormed_Cons: "\<not> isSurrogate u \<Longrightarrow> wellFormed (u # s) = wellFormed s"
  by (cases s) (auto simp: isSurrogate_def)

lemma wellFormed_append: "wellFormed s \<Longrightarrow> wellFormed t \<Longrightarrow> wellFormed (s @ t)"
proof (induction s rule: wellFormed.induct)
  case 1
  then show ?case by simp
next
  case (2 u)
  then show ?case by (simp add: wellFormed_Cons)
next
  case (3 u v s)
  then show ?case by (auto split: if_splits)
qed

lemma wellFormed_plain: "\<forall>u \<in> set s. \<not> isSurrogate u \<Longrightarrow> wellFormed s"
  by (induction s) (simp_all add: wellFormed_Cons)

lemma unat_codeUnit_char [simp]: "unat (codeUnit (of_char c)) = of_char c"
proof -
  have "(of_char c :: nat) < 256" by simp
  then have "(of_char c :: nat) < 65536" by linarith
  then show ?thesis by (rule unat_codeUnit)
qed

lemma unat_js: "u \<in> set (js s) \<Longrightarrow> unat u < 256"
  by (auto simp: js_def)

lemma wellFormed_js: "wellFormed (js s)"
  by (rule wellFormed_plain) (auto simp: surrogate_ranges dest: unat_js)

subsection \<open>Base64 and numbers\<close>

lemma base64_char_not_pad: "i < 64 \<Longrightarrow> unat (base64_char i) \<noteq> 0x3D"
  using base64_value_char [of i] by (auto simp: base64_value_def Let_def split: if_splits)

lemma pack_bound: "a < m \<Longrightarrow> b < n \<Longrightarrow> a * n + b < m * (n::nat)"
proof -
  assume a: "a < m" and b: "b < n"
  from a have "Suc a \<le> m" by simp
  then have "Suc a * n \<le> m * n" by (rule mult_le_mono1)
  with b show ?thesis by simp
qed

lemma pack_div: "b < n \<Longrightarrow> (a * n + b) div n = (a::nat)"
  by simp

lemma pack_mod: "b < n \<Longrightarrow> (a * n + b) mod n = (b::nat)"
  by simp

lemma byte_parts:
  fixes x :: nat
  assumes "x < 256"
  shows "x div 4 < 64" "x div 16 < 16" "x div 64 < 4" "x mod 4 < 4" "x mod 16 < 16" "x mod 64 < 64"
  using assms by (simp_all add: less_mult_imp_div_less)

lemma sextets:
  fixes x y z :: nat
  assumes "x < 256" "y < 256" "z < 256"
  shows "x mod 4 * 16 + y div 16 < 64" "y mod 16 * 4 + z div 64 < 64"
    "x mod 4 * 16 < 64" "y mod 16 * 4 < 64"
proof -
  have "x mod 4 * 16 + y div 16 < 4 * 16"
    by (rule pack_bound) (simp_all add: byte_parts assms)
  then show "x mod 4 * 16 + y div 16 < 64" by simp
  then show "x mod 4 * 16 < 64" by simp
  have "y mod 16 * 4 + z div 64 < 16 * 4"
    by (rule pack_bound) (simp_all add: byte_parts assms)
  then show "y mod 16 * 4 + z div 64 < 64" by simp
  then show "y mod 16 * 4 < 64" by simp
qed

lemma sextets_back:
  fixes x y z :: nat
  assumes "x < 256" "y < 256" "z < 256"
  shows 
    "x div 4 * 4 + (x mod 4 * 16 + y div 16) div 16 = x"
    "(x mod 4 * 16 + y div 16) mod 16 * 16 + (y mod 16 * 4 + z div 64) div 4 = y"
    "(y mod 16 * 4 + z div 64) mod 4 * 64 + z mod 64 = z"
    "x div 4 * 4 + (x mod 4 * 16) div 16 = x"
    "(x mod 4 * 16 + y div 16) mod 16 * 16 + (y mod 16 * 4) div 4 = y"
  using byte_parts [OF assms(1)] byte_parts [OF assms(2)] byte_parts [OF assms(3)]
  by (simp_all add: pack_div pack_mod)

lemma base64_decode_encode: "base64_decode (base64_encode bs) = Some bs"
proof (induction bs rule: base64_encode.induct)
  case 1
  then show ?case by simp
next
  case (2 a)
  have x: "(of_char a :: nat) < 256" by simp
  show ?case
    using sextets [OF x x x] sextets_back [OF x x x] byte_parts [OF x]
    by (simp add: Let_def base64_decode1_def base64_value_char unat_codeUnit)
next
  case (3 a b)
  have x: "(of_char a :: nat) < 256" and y: "(of_char b :: nat) < 256" by simp_all
  show ?case
    using sextets [OF x y y] sextets_back [OF x y y] byte_parts [OF x] byte_parts [OF y]
    by (simp add: Let_def base64_decode2_def base64_value_char unat_codeUnit base64_char_not_pad)
next
  case (4 a b c bs)
  have x: "(of_char a :: nat) < 256" and y: "(of_char b :: nat) < 256"
    and z: "(of_char c :: nat) < 256" by simp_all
  have quad: "base64_decode3 (base64_char (of_char a div 4))
      (base64_char (of_char a mod 4 * 16 + of_char b div 16))
      (base64_char (of_char b mod 16 * 4 + of_char c div 64))
      (base64_char (of_char c mod 64)) = Some [a, b, c]"
    using sextets [OF x y z] sextets_back [OF x y z] byte_parts [OF x] byte_parts [OF z]
    by (simp add: base64_decode3_def base64_value_char)
  have pad: "unat (base64_char (of_char c mod 64)) \<noteq> 0x3D"
    using byte_parts [OF z] by (simp add: base64_char_not_pad)
  show ?case
    using quad pad "4.IH" by (simp add: Let_def)
qed

lemma js_append [simp]: "js (s @ t) = js s @ js t"
  by (simp add: js_def)

lemma js_Cons: "js (c # s) = codeUnit (of_char c) # js s"
  by (simp add: js_def)

lemma js_Nil [simp]: "js [] = []"
  by (simp add: js_def)

lemma digit_char_props:
  assumes "d < 10"
  shows "isDigit (codeUnit (of_char (digit_char d)))"
    "unat (codeUnit (of_char (digit_char d))) - 48 = d"
    "(unat (codeUnit (of_char (digit_char d))) = 48) = (d = 0)"
    "unat (codeUnit (of_char (digit_char d))) \<noteq> 0x2D"
    "unat (codeUnit (of_char (digit_char d))) \<noteq> 0x22"
  using assms by (simp_all add: digit_char_def isDigit_def unat_codeUnit)

lemma of_char_digit: "d < 10 \<Longrightarrow> (of_char (digit_char d) :: nat) = 48 + d"
  by (simp add: digit_char_def)

lemma show_nat_nonempty: "show_nat n \<noteq> []"
  by (subst show_nat.simps) simp

lemma show_nat_digits: "c \<in> set (js (show_nat n)) \<Longrightarrow> isDigit c"
proof (induction n rule: show_nat.induct)
  case (1 n)
  show ?case
  proof (cases "n < 10")
    case True
    with "1.prems" show ?thesis
      by (subst (asm) show_nat.simps) (simp add: digit_char_props js_Cons)
  next
    case False
    with "1.prems" have "c \<in> set (js (show_nat (n div 10)))
        \<or> c = codeUnit (of_char (digit_char (n mod 10)))"
      by (subst (asm) show_nat.simps) (auto simp: js_Cons)
    with False "1.IH" show ?thesis by (auto simp: digit_char_props)
  qed
qed

lemma read_nat_snoc: "read_nat (ds @ [c]) = 10 * read_nat ds + (unat c - 48)"
  by (simp add: read_nat_def)

lemma read_show_nat: "read_nat (js (show_nat n)) = n"
proof (induction n rule: show_nat.induct)
  case (1 n)
  show ?case
  proof (cases "n < 10")
    case True
    then show ?thesis
      by (subst show_nat.simps) (simp add: read_nat_def of_char_digit js_Cons unat_codeUnit)
  next
    case False
    with "1.IH" show ?thesis
      by (subst show_nat.simps) (simp add: read_nat_snoc of_char_digit js_Cons unat_codeUnit)
  qed
qed

lemma show_nat_hd: "(unat (hd (js (show_nat n))) = 48) = (n = 0)"
proof (induction n rule: show_nat.induct)
  case (1 n)
  show ?case
  proof (cases "n < 10")
    case True
    then show ?thesis
      by (subst show_nat.simps) (simp add: of_char_digit js_Cons unat_codeUnit)
  next
    case False
    then have "n div 10 \<noteq> 0" by simp
    moreover have "js (show_nat (n div 10)) \<noteq> []"
      using show_nat_nonempty [of "n div 10"] by (simp add: js_def)
    ultimately show ?thesis
      using False "1.IH" by (subst show_nat.simps) simp
  qed
qed

lemma show_nat_zero: "js (show_nat 0) = [codeUnit 48]"
  by (subst show_nat.simps) (simp add: digit_char_def js_Cons)

lemma js_nonempty: "s \<noteq> [] \<Longrightarrow> js s \<noteq> []"
  by (simp add: js_def)

lemma parse_digits_show:
  assumes "endsNumber rest"
  shows "parse_digits (js (show_nat n) @ rest) = Some (n, rest)"
proof -
  have t: "takeWhile isDigit rest = []" and d: "dropWhile isDigit rest = rest"
    using assms by (cases rest; simp add: endsNumber_def)+
  have tk: "takeWhile isDigit (js (show_nat n) @ rest) = js (show_nat n)"
    by (simp add: takeWhile_append2 show_nat_digits t)
  have dr: "dropWhile isDigit (js (show_nat n) @ rest) = rest"
    by (simp add: dropWhile_append2 show_nat_digits d)
  have lead: "\<not> (length (js (show_nat n)) > 1 \<and> unat (hd (js (show_nat n))) = 48)"
  proof (cases "n = 0")
    case True
    then show ?thesis by (simp add: show_nat_zero)
  next
    case False
    then show ?thesis by (simp add: show_nat_hd)
  qed
  show ?thesis
    using lead
    by (simp add: parse_digits_def tk dr Let_def show_nat_nonempty js_nonempty read_show_nat)
qed

lemma show_nat_first: "\<exists>c cs. js (show_nat n) = c # cs \<and> isDigit c"
  using js_nonempty [OF show_nat_nonempty [of n]] show_nat_digits [of _ n]
  by (cases "js (show_nat n)") auto

lemma isDigit_not_minus: "isDigit c \<Longrightarrow> unat c \<noteq> 0x2D \<and> unat c \<noteq> 0x22"
  by (auto simp: isDigit_def)

lemma parse_number_toString:
  assumes "endsNumber rest"
  shows "parse_number (js (toString i) @ rest) = Some (i, rest)"
proof (cases "i < 0")
  case True
  then show ?thesis
    by (simp add: toString_def parse_number_def parse_digits_show [OF assms] js_Cons
        unat_codeUnit)
next
  case False
  obtain c cs where s: "js (show_nat (nat i)) = c # cs" and c: "isDigit c"
    using show_nat_first by blast
  have "parse_digits ((c # cs) @ rest) = Some (nat i, rest)"
    using parse_digits_show [OF assms, of "nat i"] by (simp add: s)
  with False c show ?thesis
    by (simp add: toString_def parse_number_def s isDigit_not_minus)
qed

lemma hex_value_digit: "d < 16 \<Longrightarrow> hex_value (hex_digit d) = Some d"
proof -
  assume d: "d < 16"
  show ?thesis
  proof (cases "d < 10")
    case True
    then show ?thesis by (simp add: hex_value_def hex_digit_def Let_def unat_codeUnit)
  next
    case False
    with d show ?thesis by (simp add: hex_value_def hex_digit_def Let_def unat_codeUnit)
  qed
qed

lemma parse_string_plain:
  assumes "unat c \<noteq> 34" and "unat c \<noteq> 92" and "\<not> unat c < 32"
  shows "parse_string (c # t) = map_option (apfst ((#) c)) (parse_string t)"
  using assms by simp

lemma digits16:
  fixes n :: nat
  assumes "n < 65536"
  shows "n div 4096 < 16" "n div 256 mod 16 < 16" "n div 16 mod 16 < 16" "n mod 16 < 16"
    "((n div 4096 * 16 + n div 256 mod 16) * 16 + n div 16 mod 16) * 16 + n mod 16 = n"
proof -
  show "n div 4096 < 16" using assms by (simp add: less_mult_imp_div_less)
  have a: "n div 256 = n div 16 div 16"
  proof -
    have "n div 256 = n div (16 * 16)" by simp
    also have "\<dots> = n div 16 div 16" by (simp only: div_mult2_eq)
    finally show ?thesis .
  qed
  have "n div 4096 = n div (256 * 16)" by simp
  also have "\<dots> = n div 256 div 16" by (simp only: div_mult2_eq)
  finally have b: "n div 4096 = n div 16 div 16 div 16" by (simp only: a)
  show "((n div 4096 * 16 + n div 256 mod 16) * 16 + n div 16 mod 16) * 16 + n mod 16 = n"
    by (simp only: a b) simp
qed simp_all

lemma parse_string_unicode:
  "parse_string (unicodeEscape (unat u) @ t) = map_option (apfst ((#) u)) (parse_string t)"
proof -
  let ?n = "unat u"
  have n: "?n < 65536" by (rule unat_bound16)
  have "parse_hex4 [hex_digit (?n div 4096), hex_digit (?n div 256 mod 16),
      hex_digit (?n div 16 mod 16), hex_digit (?n mod 16)] = Some ?n"
    using digits16 [OF n] by (simp add: parse_hex4_def hex_value_digit)
  then show ?thesis
    by (simp add: unicodeEscape_def unat_codeUnit codeUnit_unat)
qed

lemma unat_is: "n < 65536 \<Longrightarrow> unat u = n \<Longrightarrow> u = codeUnit n"
  using codeUnit_unat [of u] by simp

lemma parse_string_quote_unit:
  "parse_string (quote_unit u @ t) = map_option (apfst ((#) u)) (parse_string t)"
proof -
  let ?n = "unat u"
  consider "?n = 8" | "?n = 9" | "?n = 10" | "?n = 12" | "?n = 13" | "?n = 34" | "?n = 92"
    | "?n \<notin> {8, 9, 10, 12, 13, 34, 92}" "?n < 32 \<or> isSurrogate u"
    | "\<not> ?n < 32" "?n \<noteq> 34" "?n \<noteq> 92" "\<not> isSurrogate u"
    by blast
  then show ?thesis
  proof cases
    case 1
    then have "u = codeUnit 8" by (intro unat_is) simp_all
    then show ?thesis by (simp add: quote_unit_def unescape_def unat_codeUnit)
  next
    case 2
    then have "u = codeUnit 9" by (intro unat_is) simp_all
    then show ?thesis by (simp add: quote_unit_def unescape_def unat_codeUnit)
  next
    case 3
    then have "u = codeUnit 10" by (intro unat_is) simp_all
    then show ?thesis by (simp add: quote_unit_def unescape_def unat_codeUnit)
  next
    case 4
    then have "u = codeUnit 12" by (intro unat_is) simp_all
    then show ?thesis by (simp add: quote_unit_def unescape_def unat_codeUnit)
  next
    case 5
    then have "u = codeUnit 13" by (intro unat_is) simp_all
    then show ?thesis by (simp add: quote_unit_def unescape_def unat_codeUnit)
  next
    case 6
    then have "u = codeUnit 34" by (intro unat_is) simp_all
    then show ?thesis by (simp add: quote_unit_def unescape_def unat_codeUnit)
  next
    case 7
    then have "u = codeUnit 92" by (intro unat_is) simp_all
    then show ?thesis by (simp add: quote_unit_def unescape_def unat_codeUnit)
  next
    case 8
    then have "quote_unit u = unicodeEscape ?n"
      by (simp add: quote_unit_def Let_def)
    then show ?thesis by (simp add: parse_string_unicode)
  next
    case 9
    then have "quote_unit u = [u]" by (simp add: quote_unit_def Let_def)
    with parse_string_plain [of u t] 9 show ?thesis by simp
  qed
qed

lemma surrogate_plain:
  assumes "isSurrogate u"
  shows "unat u \<noteq> 34" "unat u \<noteq> 92" "\<not> unat u < 32"
  using assms by (auto simp: surrogate_ranges)

lemma parse_string_quoted:
  "parse_string (quote_units s @ codeUnit 0x22 # rest) = Some (s, rest)"
proof (induction s rule: quote_units.induct)
  case 1
  then show ?case by (simp add: unat_codeUnit)
next
  case (2 u)
  then show ?case by (simp add: parse_string_quote_unit unat_codeUnit)
next
  case (3 u v s)
  show ?case
  proof (cases "isLeadSurrogate u \<and> isTrailSurrogate v")
    case True
    then have "isSurrogate u" "isSurrogate v" by (simp_all add: isSurrogate_def)
    then have "parse_string (u # v # quote_units s @ codeUnit 0x22 # rest) =
        map_option (apfst ((#) u)) (map_option (apfst ((#) v))
          (parse_string (quote_units s @ codeUnit 0x22 # rest)))"
      by (simp only: parse_string_plain surrogate_plain not_False_eq_True)
    with True "3.IH"(1) show ?thesis by simp
  next
    case False
    then have "parse_string (quote_units (v # s) @ codeUnit 0x22 # rest) = Some (v # s, rest)"
      by (rule "3.IH"(2))
    moreover have "quote_units (u # v # s) = quote_unit u @ quote_units (v # s)"
      using False by auto
    ultimately show ?thesis
      by (simp only: append_assoc parse_string_quote_unit) simp
  qed
qed

lemma wellFormed_unicodeEscape:
  "wellFormed (unicodeEscape (unat (u :: 16 word)) @ t) = wellFormed t"
proof -
  have h: "\<not> isSurrogate (hex_digit d)" if "d < 16" for d
    using that by (simp add: hex_digit_def surrogate_ranges unat_codeUnit)
  have c: "\<not> isSurrogate (codeUnit 0x5C)" "\<not> isSurrogate (codeUnit 0x75)"
    by (simp_all add: surrogate_ranges unat_codeUnit)
  show ?thesis
    using digits16 [OF unat_bound16 [of u]]
    by (simp add: unicodeEscape_def wellFormed_Cons h c)
qed

lemma wellFormed_quote_unit: "wellFormed (quote_unit u @ t) = wellFormed t"
proof -
  have c: "\<not> isSurrogate (codeUnit n)" if "n < 128" for n
    using that by (simp add: surrogate_ranges unat_codeUnit)
  show ?thesis
    by (auto simp: quote_unit_def Let_def wellFormed_unicodeEscape wellFormed_Cons c)
qed

lemma wellFormed_quote_units: "wellFormed t \<Longrightarrow> wellFormed (quote_units s @ t)"
proof (induction s rule: quote_units.induct)
  case 1
  then show ?case by simp
next
  case (2 u)
  then show ?case by (simp add: wellFormed_quote_unit)
next
  case (3 u v s)
  show ?case
  proof (cases "isLeadSurrogate u \<and> isTrailSurrogate v")
    case True
    with 3 show ?thesis by simp
  next
    case False
    with 3 have "wellFormed (quote_units (v # s) @ t)" by simp
    then have "wellFormed (quote_unit u @ quote_units (v # s) @ t)"
      by (simp only: wellFormed_quote_unit)
    with False show ?thesis by auto
  qed
qed

lemma wellFormed_quote: "wellFormed (quote s)"
proof -
  have c: "\<not> isSurrogate (codeUnit 0x22)"
    by (simp add: surrogate_ranges unat_codeUnit)
  have "wellFormed (quote_units s @ [codeUnit 0x22])"
    by (rule wellFormed_quote_units) (simp add: c)
  then show ?thesis by (simp add: quote_def wellFormed_Cons c)
qed

lemma wellFormed_stringify_member: "wellFormed (stringify_member kv)"
  by (cases "snd kv")
     (simp_all add: stringify_member_def wellFormed_append wellFormed_quote wellFormed_js)

lemma wellFormed_stringify_members: "wellFormed (stringify_members obj)"
  by (induction obj rule: stringify_members.induct)
     (simp_all add: wellFormed_append wellFormed_stringify_member wellFormed_js)

lemma wellFormed_JSON_stringify: "wellFormed (JSON_stringify obj)"
  by (simp add: JSON_stringify_def wellFormed_append wellFormed_stringify_members wellFormed_js)


subsection \<open>JSON texts\<close>

lemma toString_first: "\<exists>c cs. js (toString i) = c # cs \<and> unat c \<noteq> 0x22"
proof -
  obtain c cs where "js (show_nat (nat i)) = c # cs" "isDigit c"
    using show_nat_first by blast
  then show ?thesis
    by (cases "i < 0") (auto simp: toString_def isDigit_not_minus js_Cons unat_codeUnit)
qed

lemma parse_value_stringify:
  assumes "endsNumber rest"
  shows "parse_value ((case v of JString s \<Rightarrow> quote s | JNumber i \<Rightarrow> js (toString i)) @ rest) =
         Some (v, rest)"
proof (cases v)
  case (JString s)
  then show ?thesis
    using parse_string_quoted [of s rest]
    by (simp add: parse_value_def quote_def unat_codeUnit)
next
  case (JNumber i)
  obtain c cs where t: "js (toString i) = c # cs" and c: "unat c \<noteq> 0x22"
    using toString_first by blast
  have "parse_number ((c # cs) @ rest) = Some (i, rest)"
    using parse_number_toString [OF assms, of i] by (simp add: t)
  with JNumber c show ?thesis
    by (simp add: parse_value_def t)
qed

lemma parse_member_stringify:
  assumes "endsNumber rest"
  shows "parse_member (stringify_member kv @ rest) = Some (kv, rest)"
proof -
  let ?v = "case snd kv of JString s \<Rightarrow> quote s | JNumber i \<Rightarrow> js (toString i)"
  have "parse_string (quote_units (fst kv) @ codeUnit 0x22 # codeUnit 0x3A # ?v @ rest) =
      Some (fst kv, codeUnit 0x3A # ?v @ rest)"
    by (rule parse_string_quoted)
  then show ?thesis
    using parse_value_stringify [OF assms, of "snd kv"]
    by (simp add: parse_member_def stringify_member_def quote_def js_Cons unat_codeUnit)
qed

lemma endsNumber_punctuation:
  "endsNumber (codeUnit 0x2C # t)" "endsNumber (codeUnit 0x7D # t)"
  by (simp_all add: endsNumber_def isDigit_def unat_codeUnit)

lemma parse_members_stringify:
  "obj \<noteq> [] \<Longrightarrow> length obj \<le> fuel \<Longrightarrow>
   parse_members fuel (stringify_members obj @ js ''}'') = Some obj"
proof (induction obj arbitrary: fuel rule: stringify_members.induct)
  case 1
  then show ?case by simp
next
  case (2 kv)
  then obtain f where f: "fuel = Suc f" by (cases fuel) auto
  have "parse_member (stringify_member kv @ codeUnit 0x7D # []) = Some (kv, codeUnit 0x7D # [])"
    by (rule parse_member_stringify) (rule endsNumber_punctuation)
  then show ?case by (simp add: f js_Cons unat_codeUnit)
next
  case (3 kv kv' kvs)
  then obtain f where f: "fuel = Suc f" by (cases fuel) auto
  let ?rest = "stringify_members (kv' # kvs) @ js ''}''"
  have "parse_member (stringify_member kv @ codeUnit 0x2C # ?rest) =
      Some (kv, codeUnit 0x2C # ?rest)"
    by (rule parse_member_stringify) (rule endsNumber_punctuation)
  moreover have "parse_members f ?rest = Some (kv' # kvs)"
    using "3.prems" f by (intro "3.IH") simp_all
  ultimately show ?case by (simp add: f js_Cons unat_codeUnit)
qed

lemma stringify_member_nonempty: "stringify_member kv \<noteq> []"
  by (simp add: stringify_member_def quote_def)

lemma length_stringify_members: "length obj \<le> length (stringify_members obj)"
proof (induction obj rule: stringify_members.induct)
  case 1
  then show ?case by simp
next
  case (2 kv)
  show ?case using stringify_member_nonempty [of kv] by (cases "stringify_member kv") simp_all
next
  case (3 kv kv' kvs)
  then show ?case by (simp add: js_Cons)
qed

lemma JSON_parse_stringify: "JSON_parse (JSON_stringify obj) = Some obj"
proof (cases "obj = []")
  case True
  then show ?thesis by (simp add: JSON_parse_def JSON_stringify_def js_Cons unat_codeUnit)
next
  case False
  let ?cs = "stringify_members obj @ js ''}''"
  have "stringify_members obj \<noteq> []"
    using False length_stringify_members [of obj] by (cases obj) auto
  then have ne: "?cs \<noteq> js ''}''" by (simp add: js_Cons)
  have "parse_members (length ?cs) ?cs = Some obj"
    using False length_stringify_members [of obj] by (intro parse_members_stringify) simp_all
  with ne show ?thesis by (simp add: JSON_parse_def JSON_stringify_def js_Cons unat_codeUnit)
qed

lemma replace_prefix: "p \<noteq> [] \<Longrightarrow> replace (p @ s) p [] = s"
  by (cases p) (simp_all add: startsWith_def)


subsection \<open>Examples\<close>

text \<open>
  An accented letter, the euro sign, an emoji and surrogates out of a pair in UTF-8; byte
  sequences that are not well formed; and the quoting of a lone surrogate, a line feed and a
  surrogate pair.
\<close>

lemma surrogate_examples:
  "isLeadSurrogate (codeUnit 0xD83D)" "isTrailSurrogate (codeUnit 0xDE00)"
  "\<not> isTrailSurrogate (codeUnit 0xD83D)" "\<not> isLeadSurrogate (codeUnit 0xDE00)"
  "\<not> isSurrogate (codeUnit 0x20AC)" "\<not> isSurrogate (codeUnit 0xE9)"
  by (simp_all add: isSurrogate_def isLeadSurrogate_def isTrailSurrogate_def unat_codeUnit)

lemma utf8_encode_examples:
  "utf8_encode [codeUnit 0xE9] = [CHR 0xC3, CHR 0xA9]"
  "utf8_encode [codeUnit 0x20AC] = [CHR 0xE2, CHR 0x82, CHR 0xAC]"
  "utf8_encode [codeUnit 0xD83D, codeUnit 0xDE00] = [CHR 0xF0, CHR 0x9F, CHR 0x98, CHR 0x80]"
  "utf8_encode [codeUnit 0xDE00, codeUnit 0xD83D] =
     [CHR 0xEF, CHR 0xBF, CHR 0xBD, CHR 0xEF, CHR 0xBF, CHR 0xBD]"
  by (simp_all add: utf8_encode_unit_def utf8_encode_point_def surrogatePair_def
      isSurrogate_def isLeadSurrogate_def isTrailSurrogate_def unat_codeUnit
      char_of_eq_iff take_bit_eq_mod)

lemma utf8_decode_examples:
  "utf8_decode [CHR 0xE2, CHR 0x82, CHR 0xAC] = [codeUnit 0x20AC]"
  "utf8_decode [CHR 0xF0, CHR 0x9F, CHR 0x98, CHR 0x80] = [codeUnit 0xD83D, codeUnit 0xDE00]"
  "utf8_decode [CHR 0xED, CHR 0xA0, CHR 0x80] =
     [codeUnit 0xFFFD, codeUnit 0xFFFD, codeUnit 0xFFFD]"
  "utf8_decode [CHR 0xC0, CHR 0xAF] = [codeUnit 0xFFFD, codeUnit 0xFFFD]"
  "utf8_decode [CHR 0xE2, CHR 0x82, CHR 0x41] = [codeUnit 0xFFFD, codeUnit 0x41]"
  by (simp_all add: utf8_decode_def utf8_lead_def utf16_def)

lemma quote_examples:
  "quote [codeUnit 0xD800] =
     js [CHR 0x22, CHR 0x5C, CHR ''u'', CHR ''d'', CHR ''8'', CHR ''0'', CHR ''0'', CHR 0x22]"
  "quote [codeUnit 0x0A] = js [CHR 0x22, CHR 0x5C, CHR ''n'', CHR 0x22]"
  "quote [codeUnit 0xD83D, codeUnit 0xDE00] =
     [codeUnit 0x22, codeUnit 0xD83D, codeUnit 0xDE00, codeUnit 0x22]"
  by (simp_all add: quote_def quote_unit_def unicodeEscape_def hex_digit_def surrogate_examples
      isSurrogate_def isLeadSurrogate_def isTrailSurrogate_def unat_codeUnit js_Cons)


subsection \<open>The round trip\<close>

lemma getMember_response:
  "getMember (proofData c r) (js ''response'') = Some (JString (content r))"
  by (simp add: getMember_def proofData_def js_Cons word_unat_eq_iff unat_codeUnit)


text \<open>
  C7. For every request context and response, whose strings are any JavaScript strings
  (surrogates in and out of pairs included), \<open>generateVerificationProof\<close> either throws, in
  a run where that step is the one that throws, or returns a proof for which
  \<open>verifyResponse\<close> answers true on the content of that response and false on every other
  string.
\<close>

theorem receipt_round_trip:
  "(case generateVerificationProof w c r of
      Throws \<Rightarrow> throwing w = Some GenerateProof
    | Returns p \<Rightarrow> verifyResponse p x = (x = content r))"
proof -
  have "replace (proof_text (issueProof t c r)) (js ''ZKP_'') [] =
      base64_encode (utf8_encode (JSON_stringify (proofData c r)))" for t
    by (simp add: issueProof_def replace_prefix js_nonempty)
  then have "verifyResponse (issueProof t c r) x = (x = content r)" for t
    by (auto simp: verifyResponse_def base64_decode_encode utf8_decode_encode
        wellFormed_JSON_stringify JSON_parse_stringify getMember_response)
  then show ?thesis
    by (simp add: generateVerificationProof_def)
qed


end
